theory Spec2Isabelle
  imports Main "HOL-Library.Word"
begin

unbundle bit_operations_syntax

section \<open>Disk II controller: data model\<close>

type_synonym u8 = "8 word"
type_synonym u16 = "16 word"
type_synonym u64 = "64 word"

text \<open>
  \<^verbatim>\<open>struct diskII\<close> of diskii.cpp. \<open>track\<close> is an \<^verbatim>\<open>int8_t\<close>: an 8-bit word read
  through \<open>sint\<close>, whose \<^verbatim>\<open>++\<close> and \<^verbatim>\<open>--\<close> wrap around. The field \<^verbatim>\<open>media\<close> (the raw
  sector image) is not read by the register handler and is left out.

  Modelled from the spec: \<^verbatim>\<open>nibblized_disk_t\<close> (diskii_fmt.hpp) is missing from the
  sources. \<open>nibblized\<close> is the list of the physical tracks' encoded buffers
  (\<^verbatim>\<open>nibblized.tracks[i].data\<close>); the spec gives each buffer the length 0x1A00.
\<close>

record diskII =
  rw_mode :: u8
  track :: u8
  phase0 :: u8
  phase1 :: u8
  phase2 :: u8
  phase3 :: u8
  last_phase_on :: u8
  motor :: u8
  Q7 :: u8
  Q6 :: u8
  write_protect :: u8
  image_index :: u16
  head_position :: u16
  bit_position :: u8
  read_shift_register :: u8
  last_read_cycle :: u64
  mark_cycles_turnoff :: u64
  nibblized :: "u8 list list"

text \<open>\<^verbatim>\<open>struct diskII_controller { diskII drive[2]; uint8_t drive_select; }\<close>\<close>

record diskII_controller =
  drive0 :: diskII
  drive1 :: diskII
  drive_select :: u8

text \<open>
  C++ has no bounds checks: an index outside an array and a shift by a negative count are
  undefined behaviour. The model makes each of them a fault.
\<close>

datatype fault = DriveIndexOutOfRange | SlotIndexOutOfRange
  | TrackIndexOutOfRange | HeadIndexOutOfRange | NegativeShift

definition track_length :: nat where
  "track_length = 0x1A00"

definition get_drive :: "diskII_controller \<Rightarrow> u8 \<Rightarrow> fault + diskII" where
  "get_drive c d =
     (if d = 0 then Inr (drive0 c)
      else if d = 1 then Inr (drive1 c)
      else Inl DriveIndexOutOfRange)"

definition put_drive :: "diskII_controller \<Rightarrow> u8 \<Rightarrow> diskII \<Rightarrow> diskII_controller" where
  "put_drive c d v = (if d = 0 then c\<lparr>drive0 := v\<rparr> else c\<lparr>drive1 := v\<rparr>)"

text \<open>
  Modelled from the spec: the enumeration of the sixteen registers (diskii.hpp) is missing
  from the sources; the offsets are those of the spec's register table and of the header
  comment of diskii.cpp (\<^verbatim>\<open>$C0S0\<close> .. \<^verbatim>\<open>$C0SF\<close>).
\<close>

datatype DiskII_reg =
    DiskII_Ph0_Off | DiskII_Ph0_On
  | DiskII_Ph1_Off | DiskII_Ph1_On
  | DiskII_Ph2_Off | DiskII_Ph2_On
  | DiskII_Ph3_Off | DiskII_Ph3_On
  | DiskII_Motor_Off | DiskII_Motor_On
  | DiskII_Drive1_Select | DiskII_Drive2_Select
  | DiskII_Q6L | DiskII_Q6H
  | DiskII_Q7L | DiskII_Q7H

fun reg_offset :: "DiskII_reg \<Rightarrow> nat" where
  "reg_offset DiskII_Ph0_Off = 0"
| "reg_offset DiskII_Ph0_On = 1"
| "reg_offset DiskII_Ph1_Off = 2"
| "reg_offset DiskII_Ph1_On = 3"
| "reg_offset DiskII_Ph2_Off = 4"
| "reg_offset DiskII_Ph2_On = 5"
| "reg_offset DiskII_Ph3_Off = 6"
| "reg_offset DiskII_Ph3_On = 7"
| "reg_offset DiskII_Motor_Off = 8"
| "reg_offset DiskII_Motor_On = 9"
| "reg_offset DiskII_Drive1_Select = 10"
| "reg_offset DiskII_Drive2_Select = 11"
| "reg_offset DiskII_Q6L = 12"
| "reg_offset DiskII_Q6H = 13"
| "reg_offset DiskII_Q7L = 14"
| "reg_offset DiskII_Q7H = 15"

definition all_regs :: "DiskII_reg list" where
  "all_regs = [DiskII_Ph0_Off, DiskII_Ph0_On, DiskII_Ph1_Off, DiskII_Ph1_On,
     DiskII_Ph2_Off, DiskII_Ph2_On, DiskII_Ph3_Off, DiskII_Ph3_On,
     DiskII_Motor_Off, DiskII_Motor_On, DiskII_Drive1_Select, DiskII_Drive2_Select,
     DiskII_Q6L, DiskII_Q6H, DiskII_Q7L, DiskII_Q7H]"

text \<open>The case of \<^verbatim>\<open>switch (reg)\<close> that an offset selects, if any.\<close>

definition reg_of_offset :: "nat \<Rightarrow> DiskII_reg option" where
  "reg_of_offset n = (if n < 16 then Some (all_regs ! n) else None)"

section \<open>The bit-serial read\<close>

text \<open>
  \<^verbatim>\<open>disk.track/2\<close> on the promoted \<^verbatim>\<open>int\<close>: C++ division truncates towards zero.
\<close>

definition half_track :: "u8 \<Rightarrow> int" where
  "half_track t = (if sint t < 0 then - ((- sint t) div 2) else sint t div 2)"

text \<open>\<^verbatim>\<open>disk.nibblized.tracks[disk.track/2].data[disk.head_position]\<close>\<close>

definition track_byte :: "diskII \<Rightarrow> fault + u8" where
  "track_byte disk =
     (let t = half_track (track disk) in
      if t < 0 \<or> length (nibblized disk) \<le> nat t then Inl TrackIndexOutOfRange
      else
        (let data = nibblized disk ! nat t in
         if length data \<le> unat (head_position disk) then Inl HeadIndexOutOfRange
         else Inr (data ! unat (head_position disk))))"

text \<open>
  \<^verbatim>\<open>if (disk.head_position++ >= 0x1A00) disk.head_position = 0;\<close>
  The comparison sees the value before the increment.
\<close>

definition spin_head :: "diskII \<Rightarrow> diskII" where
  "spin_head disk =
     (let old = head_position disk;
          disk' = disk\<lparr>head_position := old + 1\<rparr>
      in if old \<ge> 0x1A00 then disk'\<lparr>head_position := 0\<rparr> else disk')"

text \<open>The block run when \<^verbatim>\<open>disk.bit_position == 0\<close>: latch the next byte, spin.\<close>

definition load_shift_register :: "diskII \<Rightarrow> fault + diskII" where
  "load_shift_register disk =
     (case track_byte disk of
        Inl e \<Rightarrow> Inl e
      | Inr b \<Rightarrow> Inr (spin_head (disk\<lparr>read_shift_register := b\<rparr>)))"

text \<open>
  The rest of \<^verbatim>\<open>read_nybble\<close>: count the bit, shift, wrap the bit counter at 8.
  \<^verbatim>\<open>8 - disk.bit_position\<close> is an \<^verbatim>\<open>int\<close>; it is negative when the counter exceeds 8.
\<close>

definition shift_out :: "diskII \<Rightarrow> fault + (u8 \<times> diskII)" where
  "shift_out disk =
     (let disk1 = disk\<lparr>bit_position := bit_position disk + 1\<rparr> in
      if 8 < unat (bit_position disk1) then Inl NegativeShift
      else
        (let shiftedbyte = drop_bit (8 - unat (bit_position disk1)) (read_shift_register disk1);
             disk2 = (if bit_position disk1 = 8 then disk1\<lparr>bit_position := 0\<rparr> else disk1)
         in Inr (shiftedbyte, disk2)))"

definition read_nybble :: "diskII \<Rightarrow> fault + (u8 \<times> diskII)" where
  "read_nybble disk =
     (if motor disk = 0 then Inr (read_shift_register disk, disk)
      else
        (case (if bit_position disk = 0 then load_shift_register disk else Inr disk) of
           Inl e \<Rightarrow> Inl e
         | Inr disk1 \<Rightarrow> shift_out disk1))"

section \<open>The register handler\<close>

text \<open>The deferred motor stop, checked at the start of every access.\<close>

definition motor_deadline_check :: "u64 \<Rightarrow> diskII \<Rightarrow> diskII" where
  "motor_deadline_check cycles seldrive =
     (if motor seldrive = 1 \<and> mark_cycles_turnoff seldrive \<noteq> 0
         \<and> cycles > mark_cycles_turnoff seldrive
      then seldrive\<lparr>motor := 0, mark_cycles_turnoff := 0\<rparr>
      else seldrive)"

text \<open>
  One phase-on case of the switch: \<open>dn\<close> is the value of the stored last phase that steps
  down, \<open>up\<close> the one that steps up. The local \<^verbatim>\<open>int8_t last_phase_on\<close> is compared with
  0..3 only, where it agrees with the unsigned field.
\<close>

definition phase_on_step :: "u8 \<Rightarrow> u8 \<Rightarrow> u8 \<Rightarrow> diskII \<Rightarrow> diskII" where
  "phase_on_step lpo dn up seldrive =
     (if lpo = dn then seldrive\<lparr>track := track seldrive - 1\<rparr>
      else if lpo = up then seldrive\<lparr>track := track seldrive + 1\<rparr>
      else seldrive)"

text \<open>
  \<^verbatim>\<open>switch (reg)\<close>. The result is the selected drive, the controller's
  \<^verbatim>\<open>drive_select\<close> and the value of an early \<^verbatim>\<open>return\<close>, if the case returns.
\<close>

fun reg_switch :: "u64 \<Rightarrow> u8 \<Rightarrow> DiskII_reg \<Rightarrow> diskII \<Rightarrow> u8 \<Rightarrow> diskII \<times> u8 \<times> u8 option" where
  "reg_switch cycles lpo DiskII_Ph0_Off sd ds = (sd\<lparr>phase0 := 0\<rparr>, ds, None)"
| "reg_switch cycles lpo DiskII_Ph0_On sd ds =
     ((phase_on_step lpo 1 3 sd)\<lparr>phase0 := 1, last_phase_on := 0\<rparr>, ds, None)"
| "reg_switch cycles lpo DiskII_Ph1_Off sd ds = (sd\<lparr>phase1 := 0\<rparr>, ds, None)"
| "reg_switch cycles lpo DiskII_Ph1_On sd ds =
     ((phase_on_step lpo 2 0 sd)\<lparr>phase1 := 1, last_phase_on := 1\<rparr>, ds, None)"
| "reg_switch cycles lpo DiskII_Ph2_Off sd ds = (sd\<lparr>phase2 := 0\<rparr>, ds, None)"
| "reg_switch cycles lpo DiskII_Ph2_On sd ds =
     ((phase_on_step lpo 3 1 sd)\<lparr>phase2 := 1, last_phase_on := 2\<rparr>, ds, None)"
| "reg_switch cycles lpo DiskII_Ph3_Off sd ds = (sd\<lparr>phase3 := 0\<rparr>, ds, None)"
| "reg_switch cycles lpo DiskII_Ph3_On sd ds =
     ((phase_on_step lpo 0 2 sd)\<lparr>phase3 := 1, last_phase_on := 3\<rparr>, ds, None)"
| "reg_switch cycles lpo DiskII_Motor_Off sd ds =
     ((if motor sd = 1 then sd\<lparr>mark_cycles_turnoff := cycles + 750000\<rparr> else sd), ds, None)"
| "reg_switch cycles lpo DiskII_Motor_On sd ds =
     (sd\<lparr>motor := 1, mark_cycles_turnoff := 0\<rparr>, ds, None)"
| "reg_switch cycles lpo DiskII_Drive1_Select sd ds = (sd, 0, None)"
| "reg_switch cycles lpo DiskII_Drive2_Select sd ds = (sd, 1, None)"
| "reg_switch cycles lpo DiskII_Q6L sd ds = (sd\<lparr>Q6 := 0\<rparr>, ds, None)"
| "reg_switch cycles lpo DiskII_Q6H sd ds = (sd\<lparr>Q6 := 1\<rparr>, ds, None)"
| "reg_switch cycles lpo DiskII_Q7L sd ds =
     (let sd' = sd\<lparr>Q7 := 0\<rparr> in
      (sd', ds, if Q6 sd' = 0 then Some (push_bit 7 (write_protect sd')) else None))"
| "reg_switch cycles lpo DiskII_Q7H sd ds = (sd\<lparr>Q7 := 1\<rparr>, ds, None)"

text \<open>The clamp at the end of the handler: \<^verbatim>\<open>if (seldrive.track < 0) seldrive.track = 0;\<close>\<close>

definition clamp_track :: "diskII \<Rightarrow> diskII" where
  "clamp_track seldrive = (if sint (track seldrive) < 0 then seldrive\<lparr>track := 0\<rparr> else seldrive)"

text \<open>
  The body of \<^verbatim>\<open>diskII_read_C0xx\<close> on the controller of the addressed slot, at register
  offset \<open>reg\<close> and cycle count \<open>cycles\<close>. \<^verbatim>\<open>seldrive\<close> is a reference to the drive selected
  on entry; a drive-select case changes \<^verbatim>\<open>drive_select\<close>, not the reference.
\<close>

definition diskII_access :: "u64 \<Rightarrow> nat \<Rightarrow> diskII_controller \<Rightarrow> fault + (u8 \<times> diskII_controller)" where
  "diskII_access cycles reg c =
     (let drive = drive_select c in
      case get_drive c drive of
        Inl e \<Rightarrow> Inl e
      | Inr seldrive0 \<Rightarrow>
          (let seldrive1 = motor_deadline_check cycles seldrive0;
               lpo = last_phase_on seldrive1;
               (seldrive2, ds, early) =
                  (case reg_of_offset reg of
                     None \<Rightarrow> (seldrive1, drive_select c, None)
                   | Some r \<Rightarrow> reg_switch cycles lpo r seldrive1 (drive_select c));
               c' = c\<lparr>drive_select := ds\<rparr>
           in case early of
                Some v \<Rightarrow> Inr (v, put_drive c' drive seldrive2)
              | None \<Rightarrow>
                  if even reg \<and> Q7 seldrive2 = 0 \<and> Q6 seldrive2 = 0
                  then (case read_nybble seldrive2 of
                          Inl e \<Rightarrow> Inl e
                        | Inr (v, seldrive3) \<Rightarrow> Inr (v, put_drive c' drive seldrive3))
                  else Inr (0xEE, put_drive c' drive (clamp_track seldrive2))))"

text \<open>
  \<^verbatim>\<open>diskII_read_C0xx\<close>: the address is decoded into register and slot, and the slot
  indexes the array of eight controllers kept as the module state.
\<close>

definition diskII_read_C0xx ::
  "u64 \<Rightarrow> u16 \<Rightarrow> diskII_controller list \<Rightarrow> fault + (u8 \<times> diskII_controller list)" where
  "diskII_read_C0xx cycles address diskII_slot =
     (let addr = address - 0xC080;
          reg = unat (addr AND 0x0F);
          slot = (ucast (drop_bit 4 addr) :: u8)
      in if length diskII_slot \<le> unat slot then Inl SlotIndexOutOfRange
         else
           (case diskII_access cycles reg (diskII_slot ! unat slot) of
              Inl e \<Rightarrow> Inl e
            | Inr (v, c') \<Rightarrow> Inr (v, diskII_slot[unat slot := c'])))"

text \<open>\<^verbatim>\<open>diskII_init\<close>, on one drive and on one controller.\<close>

definition diskII_init_drive :: "diskII \<Rightarrow> diskII" where
  "diskII_init_drive d = d\<lparr>track := 0, phase0 := 0, phase1 := 0, phase2 := 0, phase3 := 0,
     motor := 0, last_phase_on := 0, image_index := 0, write_protect := 1,
     bit_position := 0, read_shift_register := 0, head_position := 0,
     mark_cycles_turnoff := 0\<rparr>"

definition diskII_init :: "diskII_controller \<Rightarrow> diskII_controller" where
  "diskII_init c = c\<lparr>drive0 := diskII_init_drive (drive0 c),
     drive1 := diskII_init_drive (drive1 c), drive_select := 0\<rparr>"

text \<open>
  A freshly constructed drive: the members with default initialisers hold them; the
  others are indeterminate and are given by \<open>junk\<close>. No image is mounted: the track
  buffers are there (35 tracks of 0x1A00 bytes) and their content is indeterminate too.
\<close>

definition new_diskII :: "u8 \<Rightarrow> diskII" where
  "new_diskII junk = \<lparr>rw_mode = junk, track = junk, phase0 = junk, phase1 = junk,
     phase2 = junk, phase3 = junk, last_phase_on = junk, motor = junk, Q7 = 0, Q6 = 0,
     write_protect = 0, image_index = 0, head_position = 0, bit_position = 0,
     read_shift_register = 0, last_read_cycle = 0, mark_cycles_turnoff = 0,
     nibblized = replicate 35 (replicate 0x1A00 junk)\<rparr>"

definition new_controller :: "u8 \<Rightarrow> diskII_controller" where
  "new_controller junk =
     \<lparr>drive0 = new_diskII junk, drive1 = new_diskII junk, drive_select = junk\<rparr>"

text \<open>The controller of a slot after \<^verbatim>\<open>init_slot_diskII\<close>: constructed, then initialised.\<close>

definition fresh_controller :: diskII_controller where
  "fresh_controller = diskII_init (new_controller 0)"

section \<open>Sequences of accesses\<close>

text \<open>
  A sequence of register accesses, each at its cycle count. \<open>run_accesses\<close> gives the
  bytes returned and the final controller; \<open>access_trace\<close> lists every controller state
  passed through, the starting one first, up to the first fault.
\<close>

fun run_accesses ::
  "(u64 \<times> nat) list \<Rightarrow> diskII_controller \<Rightarrow> fault + (u8 list \<times> diskII_controller)" where
  "run_accesses [] c = Inr ([], c)"
| "run_accesses ((cycles, reg) # rest) c =
     (case diskII_access cycles reg c of
        Inl e \<Rightarrow> Inl e
      | Inr (v, c') \<Rightarrow>
          (case run_accesses rest c' of
             Inl e \<Rightarrow> Inl e
           | Inr (vs, c'') \<Rightarrow> Inr (v # vs, c'')))"

fun access_trace :: "(u64 \<times> nat) list \<Rightarrow> diskII_controller \<Rightarrow> diskII_controller list" where
  "access_trace [] c = [c]"
| "access_trace ((cycles, reg) # rest) c =
     c # (case diskII_access cycles reg c of
            Inl e \<Rightarrow> []
          | Inr (v, c') \<Rightarrow> access_trace rest c')"

section \<open>Vocabulary of the specification\<close>

text \<open>
  The mode flags an access ends up with, from the drive selected on entry: the Q6 and Q7
  registers set their flag, every other register leaves both alone.
\<close>

definition mode_Q6 :: "DiskII_reg \<Rightarrow> diskII \<Rightarrow> u8" where
  "mode_Q6 r sd = (if r = DiskII_Q6L then 0 else if r = DiskII_Q6H then 1 else Q6 sd)"

definition mode_Q7 :: "DiskII_reg \<Rightarrow> diskII \<Rightarrow> u8" where
  "mode_Q7 r sd = (if r = DiskII_Q7L then 0 else if r = DiskII_Q7H then 1 else Q7 sd)"

text \<open>The selected drive once the access has applied its side effect on the mode flags.\<close>

definition with_mode :: "DiskII_reg \<Rightarrow> diskII \<Rightarrow> diskII" where
  "with_mode r sd = sd\<lparr>Q7 := mode_Q7 r sd, Q6 := mode_Q6 r sd\<rparr>"

text \<open>An even offset whose access ends in Read mode (Q6 = 0, Q7 = 0).\<close>

definition ends_in_read_mode :: "DiskII_reg \<Rightarrow> diskII \<Rightarrow> bool" where
  "ends_in_read_mode r sd \<longleftrightarrow> even (reg_offset r) \<and> mode_Q6 r sd = 0 \<and> mode_Q7 r sd = 0"

text \<open>The access on which the handler returns the write-protect byte.\<close>

definition senses_write_protect :: "DiskII_reg \<Rightarrow> diskII \<Rightarrow> bool" where
  "senses_write_protect r sd \<longleftrightarrow> r = DiskII_Q7L \<and> Q6 sd = 0"

text \<open>The phase a register turns on, and the phase it turns off.\<close>

fun phase_turned_on :: "DiskII_reg \<Rightarrow> nat option" where
  "phase_turned_on DiskII_Ph0_On = Some 0"
| "phase_turned_on DiskII_Ph1_On = Some 1"
| "phase_turned_on DiskII_Ph2_On = Some 2"
| "phase_turned_on DiskII_Ph3_On = Some 3"
| "phase_turned_on _ = None"

fun phase_turned_off :: "DiskII_reg \<Rightarrow> nat option" where
  "phase_turned_off DiskII_Ph0_Off = Some 0"
| "phase_turned_off DiskII_Ph1_Off = Some 1"
| "phase_turned_off DiskII_Ph2_Off = Some 2"
| "phase_turned_off DiskII_Ph3_Off = Some 3"
| "phase_turned_off _ = None"

text \<open>
  The step table of section 4.3 of the specification, row by row: the phase turned on,
  the stored \<open>last_phase_on\<close>, the step.
\<close>

definition spec_step_table :: "nat \<Rightarrow> u8 \<Rightarrow> int" where
  "spec_step_table p lpo =
     (if p = 0 \<and> lpo = 1 then - 1
      else if p = 0 \<and> lpo = 3 then 1
      else if p = 1 \<and> lpo = 2 then - 1
      else if p = 1 \<and> lpo = 0 then 1
      else if p = 2 \<and> lpo = 3 then - 1
      else if p = 2 \<and> lpo = 1 then 1
      else if p = 3 \<and> lpo = 0 then - 1
      else if p = 3 \<and> lpo = 2 then 1
      else 0)"

text \<open>The register that selects drive \<open>d\<close> (0 or 1).\<close>

definition select_reg :: "u8 \<Rightarrow> DiskII_reg" where
  "select_reg d = (if d = 0 then DiskII_Drive1_Select else DiskII_Drive2_Select)"

section \<open>Concrete controller states\<close>

text \<open>
  The state reached from \<open>fresh_controller\<close> by reading Q6H: the first half of the
  write-protect sense sequence of the header comment (\<^verbatim>\<open>Read Q6H, then Q7L\<close>).
\<close>

definition sense_state :: diskII_controller where
  "sense_state = fresh_controller\<lparr>drive0 := (drive0 fresh_controller)\<lparr>Q6 := 1\<rparr>\<rparr>"

text \<open>
  The fresh controller after phase 3 was turned on (the stored last phase was 0: a step
  down from track 0), and after phase 2 was then turned on as well.
\<close>

definition stepped_below_zero :: diskII_controller where
  "stepped_below_zero =
     fresh_controller\<lparr>drive0 := (drive0 fresh_controller)\<lparr>phase3 := 1, last_phase_on := 3\<rparr>\<rparr>"

definition stepped_below_zero_twice :: diskII_controller where
  "stepped_below_zero_twice =
     fresh_controller\<lparr>drive0 := (drive0 fresh_controller)
       \<lparr>phase2 := 1, phase3 := 1, last_phase_on := 2\<rparr>\<rparr>"

text \<open>
  A controller with drive 1 selected out: its motor was left on with a stop deferred to
  cycle 100, and drive 0 is the selected one.
\<close>

definition idle_drive :: diskII where
  "idle_drive = (drive1 fresh_controller)\<lparr>motor := 1, mark_cycles_turnoff := 100\<rparr>"

definition idle_scenario :: diskII_controller where
  "idle_scenario = fresh_controller\<lparr>drive1 := idle_drive\<rparr>"

text \<open>\<open>stepped_below_zero\<close> after phase 3 was turned off again.\<close>

definition phase3_released :: diskII_controller where
  "phase3_released =
     fresh_controller\<lparr>drive0 := (drive0 fresh_controller)\<lparr>phase3 := 0, last_phase_on := 3\<rparr>\<rparr>"

text \<open>
  \<open>idle_scenario\<close> after drive 0 had phase 0 turned on and its motor started, and then
  with drive 1 selected.
\<close>

definition busy_scenario :: diskII_controller where
  "busy_scenario = idle_scenario\<lparr>drive0 := (drive0 fresh_controller)\<lparr>phase0 := 1, motor := 1\<rparr>\<rparr>"

definition reselected_scenario :: diskII_controller where
  "reselected_scenario = busy_scenario\<lparr>drive_select := 1\<rparr>"

text \<open>
  A disk of 35 tracks holding sync bytes only, mounted in drive 0 of the fresh
  controller; and the state after its motor was started and then commanded off at cycle
  0 (the motor-off register is an even one, so that access already shifted one bit out).
\<close>

definition sync_disk :: "u8 list list" where
  "sync_disk = replicate 35 (replicate 0x1A00 0xFF)"

definition mounted_controller :: diskII_controller where
  "mounted_controller = fresh_controller\<lparr>drive0 := (drive0 fresh_controller)\<lparr>nibblized := sync_disk\<rparr>\<rparr>"

definition coasting_drive :: diskII where
  "coasting_drive = (drive0 mounted_controller)\<lparr>motor := 1, mark_cycles_turnoff := 750000,
     read_shift_register := 0xFF, head_position := 1, bit_position := 1\<rparr>"

definition coasting :: diskII_controller where
  "coasting = mounted_controller\<lparr>drive0 := coasting_drive\<rparr>"

text \<open>\<open>coasting\<close> after one more bit was shifted out, and after a second motor-off at cycle 750000.\<close>

definition coasting_shifted :: diskII_controller where
  "coasting_shifted = coasting\<lparr>drive0 := coasting_drive\<lparr>bit_position := 2\<rparr>\<rparr>"

definition coasting_rescheduled :: diskII_controller where
  "coasting_rescheduled =
     coasting\<lparr>drive0 := coasting_drive\<lparr>bit_position := 2, mark_cycles_turnoff := 1500000\<rparr>\<rparr>"

text \<open>
  A disk whose tracks start with the address-field prologue D5 AA 96, mounted in drive 0
  of the fresh controller with the motor on.
\<close>

definition marked_disk :: "u8 list list" where
  "marked_disk = replicate 35 ([0xD5, 0xAA, 0x96] @ replicate 6653 0xFF)"

definition spinning_drive :: diskII where
  "spinning_drive = (drive0 fresh_controller)\<lparr>nibblized := marked_disk, motor := 1\<rparr>"

definition spinning :: diskII_controller where
  "spinning = fresh_controller\<lparr>drive0 := spinning_drive\<rparr>"

text \<open>
  The sync disk spinning in drive 0: the latched byte is \<open>r\<close> and the head is at
  position \<open>n\<close>, at the start of a byte.
\<close>

definition sync_at :: "u8 \<Rightarrow> nat \<Rightarrow> diskII_controller" where
  "sync_at r n = mounted_controller\<lparr>drive0 := (drive0 mounted_controller)
     \<lparr>motor := 1, read_shift_register := r, head_position := of_nat n\<rparr>\<rparr>"

section \<open>The execution scheduler\<close>

text \<open>
  Modelled from the spec: \<^verbatim>\<open>cpu_state\<close> (cpu.hpp) is missing from the sources. The record
  keeps the fields that \<^verbatim>\<open>run_cpus\<close> reads or writes: the program counter, the cycle
  clock (a 64-bit counter), the halt flag and the slip counter; \<open>machine\<close> stands for the
  rest of the machine state.
\<close>

record 'm cpu_state =
  pc :: u16
  cycles :: u64
  halt :: bool
  clock_slip :: u64
  machine :: 'm

text \<open>
  The collaborators of the loop, all outside the sources: the CPU core behind the pointer
  \<^verbatim>\<open>cpu->execute_next\<close> (its return value and its effect on the state), the
  paravirtual trap \<^verbatim>\<open>prodos_block_pv_trap\<close>, the periodic hooks run after a burst
  (event poll, audio frame, video frame, statistics), the last display refresh on halt,
  and the wall-clock pacing at the end of an iteration (a slip count or a busy wait).
\<close>

record 'm collaborators =
  execute_next :: "'m cpu_state \<Rightarrow> int \<times> 'm cpu_state"
  prodos_block_pv_trap :: "'m cpu_state \<Rightarrow> 'm cpu_state"
  periodic_hooks :: "'m cpu_state \<Rightarrow> 'm cpu_state"
  update_display :: "'m cpu_state \<Rightarrow> 'm cpu_state"
  pacing :: "'m cpu_state \<Rightarrow> 'm cpu_state"

text \<open>The first statement of the loop body: the trap, when the program counter is at 0xC5C0.\<close>

definition before_step :: "'m collaborators \<Rightarrow> 'm cpu_state \<Rightarrow> 'm cpu_state" where
  "before_step env cpu = (if pc cpu = 0xC5C0 then prodos_block_pv_trap env cpu else cpu)"

text \<open>
  The inner loop of \<^verbatim>\<open>run_cpus\<close>:
  \<^verbatim>\<open>while (cpu->cycles - last_cycle_count < 17008) { ... }\<close>.
  It has no bound of its own: a core that never advances the cycle counter keeps it
  running, so the result is an option and \<open>None\<close> stands for a burst that never ends.
\<close>

partial_function (option) burst ::
  "'m collaborators \<Rightarrow> u64 \<Rightarrow> 'm cpu_state \<Rightarrow> 'm cpu_state option" where
  "burst env last_cycle_count cpu =
     (if cycles cpu - last_cycle_count < 17008
      then
        (case execute_next env (before_step env cpu) of
           (rc, cpu') \<Rightarrow>
             if rc > 0 then Some cpu' else burst env last_cycle_count cpu')
      else Some cpu)"

declare burst.simps [code]

text \<open>
  The outer \<^verbatim>\<open>while (1)\<close> of \<^verbatim>\<open>run_cpus\<close>, for at most \<open>n\<close> iterations: a burst from
  the current cycle count, the periodic hooks, the halt check (one last display refresh
  and the loop ends), the pacing. The result tells whether the loop has ended.
\<close>

datatype 'a loop_state = Halted 'a | Running 'a

fun run_cpus :: "'m collaborators \<Rightarrow> nat \<Rightarrow> 'm cpu_state \<Rightarrow> 'm cpu_state loop_state option" where
  "run_cpus env 0 cpu = Some (Running cpu)"
| "run_cpus env (Suc n) cpu =
     (case burst env (cycles cpu) cpu of
        None \<Rightarrow> None
      | Some cpu1 \<Rightarrow>
          (let cpu2 = periodic_hooks env cpu1 in
           if halt cpu2 then Some (Halted (update_display env cpu2))
           else run_cpus env n (pacing env cpu2)))"

text \<open>
  What the claims assume of the collaborators. The core never signals a stop and every
  step advances the cycle counter by at least 1 and at most \<open>m\<close> cycles; a collaborator
  keeps the clock when it leaves the cycle counter alone.
\<close>

definition core_advances :: "'m collaborators \<Rightarrow> nat \<Rightarrow> bool" where
  "core_advances env m \<longleftrightarrow>
     (\<forall>cpu. fst (execute_next env cpu) \<le> 0
        \<and> (\<exists>k. 0 < k \<and> k \<le> m
              \<and> cycles (snd (execute_next env cpu)) = cycles cpu + of_nat k))"

definition keeps_clock :: "('m cpu_state \<Rightarrow> 'm cpu_state) \<Rightarrow> bool" where
  "keeps_clock f \<longleftrightarrow> (\<forall>cpu. cycles (f cpu) = cycles cpu)"

text \<open>
  A core whose every instruction takes 7 cycles and that never halts, with collaborators
  that leave the CPU state alone; and the CPU state as \<^verbatim>\<open>init_cpus\<close> sets it.
\<close>

definition seven_cycle_core :: "unit collaborators" where
  "seven_cycle_core = \<lparr>execute_next = (\<lambda>cpu. (0, cpu\<lparr>cycles := cycles cpu + 7\<rparr>)),
     prodos_block_pv_trap = (\<lambda>cpu. cpu), periodic_hooks = (\<lambda>cpu. cpu),
     update_display = (\<lambda>cpu. cpu), pacing = (\<lambda>cpu. cpu)\<rparr>"

definition reset_cpu :: "unit cpu_state" where
  "reset_cpu = \<lparr>pc = 0x0400, cycles = 0, halt = False, clock_slip = 0, machine = ()\<rparr>"

text \<open>
  A disk whose track buffers are one byte longer than the track length: track \<open>t\<close> holds
  0x1A00 sync bytes and then the byte 0x96 + \<open>t\<close>. It spins in drive 0 at half-track 3
  (physical track 1), with the latched byte \<open>r\<close> and the head at position \<open>n\<close>, at the
  start of a byte.
\<close>

definition padded_disk :: "u8 list list" where
  "padded_disk = map (\<lambda>t. replicate 0x1A00 0xFF @ [0x96 + of_nat t]) [0..<35]"

definition padded_at :: "u8 \<Rightarrow> nat \<Rightarrow> diskII_controller" where
  "padded_at r n = fresh_controller\<lparr>drive0 := (drive0 fresh_controller)
     \<lparr>nibblized := padded_disk, track := 3, motor := 1, read_shift_register := r,
      head_position := of_nat n\<rparr>\<rparr>"

section \<open>Basic facts\<close>

lemma reg_of_offset_simps [simp]:
  "reg_of_offset 0 = Some DiskII_Ph0_Off" "reg_of_offset (Suc 0) = Some DiskII_Ph0_On"
  "reg_of_offset 1 = Some DiskII_Ph0_On"
  "reg_of_offset 2 = Some DiskII_Ph1_Off" "reg_of_offset 3 = Some DiskII_Ph1_On"
  "reg_of_offset 4 = Some DiskII_Ph2_Off" "reg_of_offset 5 = Some DiskII_Ph2_On"
  "reg_of_offset 6 = Some DiskII_Ph3_Off" "reg_of_offset 7 = Some DiskII_Ph3_On"
  "reg_of_offset 8 = Some DiskII_Motor_Off" "reg_of_offset 9 = Some DiskII_Motor_On"
  "reg_of_offset 10 = Some DiskII_Drive1_Select" "reg_of_offset 11 = Some DiskII_Drive2_Select"
  "reg_of_offset 12 = Some DiskII_Q6L" "reg_of_offset 13 = Some DiskII_Q6H"
  "reg_of_offset 14 = Some DiskII_Q7L" "reg_of_offset 15 = Some DiskII_Q7H"
  by (simp_all add: reg_of_offset_def all_regs_def)

lemma reg_of_offset_reg_offset [simp]: "reg_of_offset (reg_offset r) = Some r"
  by (cases r) simp_all

lemma reg_offset_less_16: "reg_offset r < 16"
  by (cases r) simp_all

lemma motor_deadline_check_fields [simp]:
  "Q6 (motor_deadline_check cy sd) = Q6 sd"
  "Q7 (motor_deadline_check cy sd) = Q7 sd"
  "track (motor_deadline_check cy sd) = track sd"
  "last_phase_on (motor_deadline_check cy sd) = last_phase_on sd"
  "write_protect (motor_deadline_check cy sd) = write_protect sd"
  "head_position (motor_deadline_check cy sd) = head_position sd"
  "bit_position (motor_deadline_check cy sd) = bit_position sd"
  "read_shift_register (motor_deadline_check cy sd) = read_shift_register sd"
  "nibblized (motor_deadline_check cy sd) = nibblized sd"
  by (simp_all add: motor_deadline_check_def)

lemma motor_deadline_check_idle [simp]:
  "motor sd \<noteq> 1 \<Longrightarrow> motor_deadline_check cy sd = sd"
  "mark_cycles_turnoff sd = 0 \<Longrightarrow> motor_deadline_check cy sd = sd"
  "cy \<le> mark_cycles_turnoff sd \<Longrightarrow> motor_deadline_check cy sd = sd"
  by (auto simp add: motor_deadline_check_def)

lemma fresh_controller_drive [simp]:
  "get_drive fresh_controller 0 = Inr (drive0 fresh_controller)"
  by (simp add: fresh_controller_def diskII_init_def get_drive_def)

lemma fresh_drive0_fields [simp]:
  "track (drive0 fresh_controller) = 0" "last_phase_on (drive0 fresh_controller) = 0"
  "motor (drive0 fresh_controller) = 0" "Q6 (drive0 fresh_controller) = 0"
  "Q7 (drive0 fresh_controller) = 0" "write_protect (drive0 fresh_controller) = 1"
  "head_position (drive0 fresh_controller) = 0" "bit_position (drive0 fresh_controller) = 0"
  "read_shift_register (drive0 fresh_controller) = 0"
  "mark_cycles_turnoff (drive0 fresh_controller) = 0"
  "drive_select fresh_controller = 0"
  by (simp_all add: fresh_controller_def diskII_init_def diskII_init_drive_def
      new_controller_def new_diskII_def)

section \<open>Reads with no effective mode\<close>

text \<open>
  C9, as the code has it. An access that neither senses write protection nor ends in Read
  mode on an even offset completes without a fault and returns the byte 0xEE (the
  handler's \<^verbatim>\<open>return 0xEE\<close>), not 0.
\<close>

theorem no_effective_mode_returns_EE:
  assumes "get_drive c (drive_select c) = Inr sd"
    and "\<not> senses_write_protect r sd"
    and "\<not> ends_in_read_mode r sd"
  shows "\<exists>c'. diskII_access cy (reg_offset r) c = Inr (0xEE, c')"
  using assms
  by (cases r)
    (auto simp add: diskII_access_def senses_write_protect_def ends_in_read_mode_def
      mode_Q6_def mode_Q7_def Let_def)

theorem no_effective_mode_returns_EE_witness:
  "\<not> senses_write_protect DiskII_Q6H (drive0 fresh_controller)
   \<and> \<not> ends_in_read_mode DiskII_Q6H (drive0 fresh_controller)
   \<and> (\<exists>c'. diskII_access 5 (reg_offset DiskII_Q6H) fresh_controller = Inr (0xEE, c'))"
proof -
  have a: "\<not> senses_write_protect DiskII_Q6H (drive0 fresh_controller)"
    by (simp add: senses_write_protect_def)
  have b: "\<not> ends_in_read_mode DiskII_Q6H (drive0 fresh_controller)"
    by (simp add: ends_in_read_mode_def)
  have c: "get_drive fresh_controller (drive_select fresh_controller)
      = Inr (drive0 fresh_controller)"
    by simp
  from no_effective_mode_returns_EE [OF c a b, of 5] a b
  show ?thesis by simp
qed

text \<open>
  C9 as stated fails: turning phase 0 on in the fresh controller is an access with no
  effective mode, and the byte returned is 0xEE, not 0.
\<close>

theorem no_effective_mode_zero_counterexample:
  "\<not> senses_write_protect DiskII_Ph0_On (drive0 fresh_controller)
   \<and> \<not> ends_in_read_mode DiskII_Ph0_On (drive0 fresh_controller)
   \<and> fst (projr (diskII_access 0 1 fresh_controller)) = 0xEE
   \<and> fst (projr (diskII_access 0 1 fresh_controller)) \<noteq> 0"
  by (simp add: senses_write_protect_def ends_in_read_mode_def diskII_access_def Let_def)

section \<open>Write-protect sense and the even-offset read\<close>

text \<open>
  C6 on the code: the sense sequence of the header comment, Q6H then Q7L, run on the
  fresh controller (write protect set). Both reads return 0xEE; the byte with only bit 7
  set, 0x80, is not returned in the state Q6 = 1, Q7 = 0.
\<close>

theorem sense_with_Q6_high_evaluated:
  "diskII_access 0 13 fresh_controller = Inr (0xEE, sense_state)
   \<and> Q6 (drive0 sense_state) = 1 \<and> Q7 (drive0 sense_state) = 0
   \<and> write_protect (drive0 sense_state) = 1
   \<and> diskII_access 1 14 sense_state = Inr (0xEE, sense_state)"
  by (simp add: diskII_access_def sense_state_def Let_def get_drive_def put_drive_def
      clamp_track_def)

text \<open>
  C7 on the code: reading Q7L (offset 0xE) in Read mode returns the write-protect byte
  0x80, where the bit-serial read of the same drive returns the latched byte 0.
\<close>

theorem Q7L_in_read_mode_evaluated:
  "ends_in_read_mode DiskII_Q7L (drive0 fresh_controller)
   \<and> diskII_access 0 14 fresh_controller = Inr (0x80, fresh_controller)
   \<and> read_nybble (with_mode DiskII_Q7L (drive0 fresh_controller))
       = Inr (0, drive0 fresh_controller)"
  by (simp add: diskII_access_def Let_def put_drive_def ends_in_read_mode_def mode_Q6_def
      mode_Q7_def with_mode_def read_nybble_def)

lemma shift_out_fields:
  assumes "shift_out d = Inr (v, d')"
  shows "track d' = track d" "last_phase_on d' = last_phase_on d" "motor d' = motor d"
    "mark_cycles_turnoff d' = mark_cycles_turnoff d" "Q6 d' = Q6 d" "Q7 d' = Q7 d"
    "head_position d' = head_position d" "read_shift_register d' = read_shift_register d"
    "nibblized d' = nibblized d" "write_protect d' = write_protect d"
  using assms by (auto simp add: shift_out_def Let_def split: if_splits)

lemma load_shift_register_fields:
  assumes "load_shift_register d = Inr d'"
  shows "track d' = track d" "last_phase_on d' = last_phase_on d" "motor d' = motor d"
    "mark_cycles_turnoff d' = mark_cycles_turnoff d" "Q6 d' = Q6 d" "Q7 d' = Q7 d"
    "bit_position d' = bit_position d"
    "nibblized d' = nibblized d" "write_protect d' = write_protect d"
  using assms
  by (auto simp add: load_shift_register_def spin_head_def Let_def split: sum.splits if_splits)

lemma read_nybble_fields:
  assumes "read_nybble d = Inr (v, d')"
  shows "track d' = track d" "last_phase_on d' = last_phase_on d" "motor d' = motor d"
    "mark_cycles_turnoff d' = mark_cycles_turnoff d" "Q6 d' = Q6 d" "Q7 d' = Q7 d"
    "nibblized d' = nibblized d" "write_protect d' = write_protect d"
  using assms
  by (auto simp add: read_nybble_def shift_out_fields load_shift_register_fields
      split: if_splits sum.splits)

lemma clamp_track_nonneg: "0 \<le> sint (track (clamp_track d))"
  by (simp add: clamp_track_def)

lemma reg_switch_even_track:
  "even (reg_offset r) \<Longrightarrow> reg_switch cy lpo r sd ds = (sd', ds', early)
    \<Longrightarrow> track sd' = track sd \<and> last_phase_on sd' = last_phase_on sd"
  by (cases r) (auto simp add: Let_def)

lemma reg_switch_early_track:
  "reg_switch cy lpo r sd ds = (sd', ds', Some v)
    \<Longrightarrow> track sd' = track sd \<and> last_phase_on sd' = last_phase_on sd"
  by (cases r) (auto simp add: Let_def)

lemma reg_offset_all_regs: "map reg_offset all_regs = [0..<16]"
  by (simp add: all_regs_def upt_rec)

lemma reg_of_offset_SomeD: "reg_of_offset n = Some r \<Longrightarrow> reg_offset r = n"
proof -
  assume a: "reg_of_offset n = Some r"
  then have n: "n < 16" and r: "r = all_regs ! n"
    by (simp_all add: reg_of_offset_def split: if_splits)
  have len: "length all_regs = 16" by (simp add: all_regs_def)
  have "reg_offset (all_regs ! n) = map reg_offset all_regs ! n"
    using n len by simp
  also have "\<dots> = n" using n by (simp only: reg_offset_all_regs nth_upt)
  finally show ?thesis using r by simp
qed

text \<open>
  The switch of an access, on the drive selected on entry: the offset's case if there is
  one, no change otherwise.
\<close>

lemma diskII_access_unfold:
  assumes "get_drive c (drive_select c) = Inr sd"
    and "(case reg_of_offset reg of
            None \<Rightarrow> (motor_deadline_check cy sd, drive_select c, None)
          | Some r \<Rightarrow> reg_switch cy (last_phase_on (motor_deadline_check cy sd)) r
              (motor_deadline_check cy sd) (drive_select c)) = (sd2, ds, early)"
  shows "diskII_access cy reg c =
     (case early of
        Some v \<Rightarrow> Inr (v, put_drive (c\<lparr>drive_select := ds\<rparr>) (drive_select c) sd2)
      | None \<Rightarrow>
          if even reg \<and> Q7 sd2 = 0 \<and> Q6 sd2 = 0
          then (case read_nybble sd2 of
                  Inl e \<Rightarrow> Inl e
                | Inr (v, sd3) \<Rightarrow>
                    Inr (v, put_drive (c\<lparr>drive_select := ds\<rparr>) (drive_select c) sd3))
          else Inr (0xEE, put_drive (c\<lparr>drive_select := ds\<rparr>) (drive_select c)
                 (clamp_track sd2)))"
  unfolding diskII_access_def Let_def assms(1) sum.case assms(2) by simp

lemma reg_switch_drive_select_eq:
  "reg_switch cy lpo r sd ds = (sd', ds', early) \<Longrightarrow>
     ds' = (if reg_offset r = 10 then 0 else if reg_offset r = 11 then 1 else ds)"
  by (cases r) (auto simp add: Let_def)

lemma switch_result_facts:
  assumes "(case reg_of_offset reg of
            None \<Rightarrow> (sd1, ds0, None)
          | Some r \<Rightarrow> reg_switch cy lpo r sd1 ds0) = (sd2, ds, early)"
  shows "ds = (if reg = 10 then 0 else if reg = 11 then 1 else ds0)"
    and "even reg \<or> early \<noteq> None \<Longrightarrow> track sd2 = track sd1 \<and> last_phase_on sd2 = last_phase_on sd1"
proof -
  show "ds = (if reg = 10 then 0 else if reg = 11 then 1 else ds0)"
  proof (cases "reg_of_offset reg")
    case None
    then have "\<not> reg < 16" by (simp add: reg_of_offset_def split: if_splits)
    with None assms show ?thesis by simp
  next
    case (Some r)
    then have "reg_offset r = reg" by (rule reg_of_offset_SomeD)
    with Some assms reg_switch_drive_select_eq [of cy lpo r sd1 ds0 sd2 ds early]
    show ?thesis by simp
  qed
  show "track sd2 = track sd1 \<and> last_phase_on sd2 = last_phase_on sd1" if "even reg \<or> early \<noteq> None"
  proof (cases "reg_of_offset reg")
    case None
    with assms show ?thesis by simp
  next
    case (Some r)
    then have "reg_offset r = reg" by (rule reg_of_offset_SomeD)
    with Some assms that show ?thesis
      by (auto dest: reg_switch_even_track reg_switch_early_track)
  qed
qed

lemma clamp_track_fields [simp]:
  "last_phase_on (clamp_track d) = last_phase_on d"
  "motor (clamp_track d) = motor d"
  "mark_cycles_turnoff (clamp_track d) = mark_cycles_turnoff d"
  "head_position (clamp_track d) = head_position d"
  "bit_position (clamp_track d) = bit_position d"
  "read_shift_register (clamp_track d) = read_shift_register d"
  "0 \<le> sint (track d) \<Longrightarrow> clamp_track d = d"
  by (simp_all add: clamp_track_def)

text \<open>
  Every completed access, seen from the drive selected on entry: the controller returned
  holds the new state of that drive and the new \<^verbatim>\<open>drive_select\<close>; the track is not
  negative afterwards if it was not before; an access at an even offset changes neither
  the track nor the stored last phase.
\<close>

lemma diskII_access_InrE:
  assumes "diskII_access cy reg c = Inr (v, c')"
  obtains sd sd' ds where
    "get_drive c (drive_select c) = Inr sd"
    "c' = put_drive (c\<lparr>drive_select := ds\<rparr>) (drive_select c) sd'"
    "ds = (if reg = 10 then 0 else if reg = 11 then 1 else drive_select c)"
    "0 \<le> sint (track sd) \<Longrightarrow> 0 \<le> sint (track sd')"
    "even reg \<Longrightarrow> 0 \<le> sint (track sd) \<Longrightarrow> track sd' = track sd"
    "even reg \<Longrightarrow> last_phase_on sd' = last_phase_on sd"
proof -
  from assms obtain sd where sd: "get_drive c (drive_select c) = Inr sd"
    by (auto simp add: diskII_access_def Let_def split: sum.splits)
  obtain sd2 ds early where sw: "(case reg_of_offset reg of
            None \<Rightarrow> (motor_deadline_check cy sd, drive_select c, None)
          | Some r \<Rightarrow> reg_switch cy (last_phase_on (motor_deadline_check cy sd)) r
              (motor_deadline_check cy sd) (drive_select c)) = (sd2, ds, early)"
    by (metis prod_cases3)
  note facts = switch_result_facts [OF sw]
  note acc = assms [unfolded diskII_access_unfold [OF sd sw]]
  note ds = facts(1)
  show ?thesis
  proof (cases early)
    case (Some w)
    with acc have "c' = put_drive (c\<lparr>drive_select := ds\<rparr>) (drive_select c) sd2" by simp
    moreover have "track sd2 = track sd \<and> last_phase_on sd2 = last_phase_on sd"
      using facts(2) Some by simp
    ultimately show ?thesis using that [OF sd _ ds] by simp
  next
    case None
    show ?thesis
    proof (cases "even reg \<and> Q7 sd2 = 0 \<and> Q6 sd2 = 0")
      case True
      with acc None obtain sd3 where rn: "read_nybble sd2 = Inr (v, sd3)"
        and c': "c' = put_drive (c\<lparr>drive_select := ds\<rparr>) (drive_select c) sd3"
        by (auto split: sum.splits)
      have "track sd3 = track sd \<and> last_phase_on sd3 = last_phase_on sd"
        using read_nybble_fields(1,2) [OF rn] facts(2) True by simp
      then show ?thesis using that [OF sd c' ds] by simp
    next
      case False
      with acc None have c': "c' = put_drive (c\<lparr>drive_select := ds\<rparr>) (drive_select c)
          (clamp_track sd2)"
        by auto
      have "even reg \<Longrightarrow> track sd2 = track sd \<and> last_phase_on sd2 = last_phase_on sd"
        using facts(2) by simp
      then show ?thesis using that [OF sd c' ds] clamp_track_nonneg by simp
    qed
  qed
qed

lemma get_drive_InrD: "get_drive c d = Inr sd \<Longrightarrow> (d = 0 \<and> sd = drive0 c) \<or> (d = 1 \<and> sd = drive1 c)"
  by (auto simp add: get_drive_def split: if_splits)

lemma track_nonneg_step:
  assumes "diskII_access cy reg c = Inr (v, c')"
    and "0 \<le> sint (track (drive0 c))" and "0 \<le> sint (track (drive1 c))"
    and "drive_select c = 0 \<or> drive_select c = 1"
  shows "0 \<le> sint (track (drive0 c')) \<and> 0 \<le> sint (track (drive1 c'))
     \<and> (drive_select c' = 0 \<or> drive_select c' = 1)"
  using assms(1)
proof (rule diskII_access_InrE)
  fix sd sd' ds
  assume "get_drive c (drive_select c) = Inr sd"
    "c' = put_drive (c\<lparr>drive_select := ds\<rparr>) (drive_select c) sd'"
    "ds = (if reg = 10 then 0 else if reg = 11 then 1 else drive_select c)"
    "0 \<le> sint (track sd) \<Longrightarrow> 0 \<le> sint (track sd')"
  with assms(2-4) show ?thesis
    by (auto simp add: put_drive_def dest!: get_drive_InrD)
qed

lemma sint_track_inc: "0 \<le> sint (t :: u8) \<Longrightarrow> sint t < 127 \<Longrightarrow> sint (t + 1) = sint t + 1"
  by (simp add: sint_word_ariths signed_take_bit_int_eq_self)

lemma sint_track_dec: "0 \<le> sint (t :: u8) \<Longrightarrow> sint (t - 1) = sint t - 1"
proof -
  assume a: "0 \<le> sint t"
  have "sint t < 128" using sint_lt [of t] by simp
  with a have "signed_take_bit 7 (sint t - 1) = sint t - 1"
    by (intro signed_take_bit_int_eq_self) simp_all
  then show ?thesis by (simp add: sint_word_ariths)
qed

lemma trace_invariant:
  assumes "c \<in> set (access_trace accs c0)"
    and "0 \<le> sint (track (drive0 c0))" and "0 \<le> sint (track (drive1 c0))"
    and "drive_select c0 = 0 \<or> drive_select c0 = 1"
  shows "0 \<le> sint (track (drive0 c)) \<and> 0 \<le> sint (track (drive1 c))
     \<and> (drive_select c = 0 \<or> drive_select c = 1)"
  using assms
proof (induction accs arbitrary: c0)
  case Nil
  then show ?case by simp
next
  case (Cons a accs)
  obtain cy reg where a: "a = (cy, reg)" by (cases a)
  show ?case
  proof (cases "c = c0")
    case True
    with Cons.prems show ?thesis by simp
  next
    case False
    with Cons.prems(1) a obtain v c1 where
      step: "diskII_access cy reg c0 = Inr (v, c1)" and mem: "c \<in> set (access_trace accs c1)"
      by (cases "diskII_access cy reg c0") auto
    from track_nonneg_step [OF step Cons.prems(2-4)] Cons.IH [OF mem]
    show ?thesis by blast
  qed
qed

lemma diskII_init_invariant:
  "track (drive0 (diskII_init c0)) = 0" "track (drive1 (diskII_init c0)) = 0"
  "drive_select (diskII_init c0) = 0"
  by (simp_all add: diskII_init_def diskII_init_drive_def)

lemma phase_on_completes:
  assumes "drive_select c = 0 \<or> drive_select c = 1" and "phase_turned_on r = Some p"
  shows "\<exists>c'. diskII_access cy (reg_offset r) c = Inr (0xEE, c')"
  using assms by (cases r) (auto simp add: diskII_access_def Let_def get_drive_def)

section \<open>The track never goes negative\<close>

text \<open>
  C5. Whatever the controller held before \<^verbatim>\<open>diskII_init\<close>, in every state that a
  sequence of register accesses passes through after it, the track of both drives is
  at least 0; and in every such state an access that turns a phase on, a downward step
  at track 0 included, completes without a fault, returns the ordinary byte 0xEE and
  leaves both tracks at least 0.
\<close>

theorem track_never_negative:
  assumes "c \<in> set (access_trace accs (diskII_init c0))"
  shows "0 \<le> sint (track (drive0 c)) \<and> 0 \<le> sint (track (drive1 c))
    \<and> (phase_turned_on r = Some p \<longrightarrow>
        (\<exists>c'. diskII_access cy (reg_offset r) c = Inr (0xEE, c')
           \<and> 0 \<le> sint (track (drive0 c')) \<and> 0 \<le> sint (track (drive1 c'))))"
proof -
  have inv: "0 \<le> sint (track (drive0 c)) \<and> 0 \<le> sint (track (drive1 c))
     \<and> (drive_select c = 0 \<or> drive_select c = 1)"
    using assms by (rule trace_invariant) (simp_all add: diskII_init_invariant)
  have "\<exists>c'. diskII_access cy (reg_offset r) c = Inr (0xEE, c')
           \<and> 0 \<le> sint (track (drive0 c')) \<and> 0 \<le> sint (track (drive1 c'))"
    if "phase_turned_on r = Some p"
  proof -
    from inv that obtain c' where c': "diskII_access cy (reg_offset r) c = Inr (0xEE, c')"
      using phase_on_completes by blast
    with inv track_nonneg_step [OF c'] show ?thesis by blast
  qed
  with inv show ?thesis by blast
qed

lemma step_below_zero_clamped:
  "diskII_access 0 7 fresh_controller = Inr (0xEE, stepped_below_zero)"
  "diskII_access 9 5 stepped_below_zero = Inr (0xEE, stepped_below_zero_twice)"
  by (simp_all add: diskII_access_def Let_def put_drive_def get_drive_def phase_on_step_def
      clamp_track_def stepped_below_zero_def stepped_below_zero_twice_def)

theorem track_never_negative_witness:
  "stepped_below_zero \<in> set (access_trace [(0, 7)] (diskII_init (new_controller 0)))
   \<and> phase_turned_on DiskII_Ph2_On = Some 2
   \<and> spec_step_table 2 (last_phase_on (drive0 stepped_below_zero)) = - 1
   \<and> track (drive0 stepped_below_zero) = 0
   \<and> diskII_access 9 (reg_offset DiskII_Ph2_On) stepped_below_zero
       = Inr (0xEE, stepped_below_zero_twice)
   \<and> track (drive0 stepped_below_zero_twice) = 0"
proof -
  have mem: "stepped_below_zero \<in> set (access_trace [(0, 7)] (diskII_init (new_controller 0)))"
    using step_below_zero_clamped(1) by (simp add: fresh_controller_def [symmetric])
  have on: "phase_turned_on DiskII_Ph2_On = Some 2" by simp
  from track_never_negative [OF mem, of DiskII_Ph2_On 2 9] on mem step_below_zero_clamped(2)
  show ?thesis
    by (simp add: stepped_below_zero_def stepped_below_zero_twice_def spec_step_table_def)
qed

section \<open>Head stepping\<close>

lemma clamp_after_phase_on_step:
  assumes "0 \<le> sint (track sd)" and "sint (track sd) < 127"
  shows "sint (track (clamp_track (phase_on_step lpo dn up sd))) =
     max 0 (sint (track sd) + (if lpo = dn then - 1 else if lpo = up then 1 else 0))"
  using assms
  by (auto simp add: clamp_track_def phase_on_step_def sint_track_inc sint_track_dec)

lemma clamp_track_updates [simp]:
  "clamp_track (sd\<lparr>phase0 := a, last_phase_on := b\<rparr>) = (clamp_track sd)\<lparr>phase0 := a, last_phase_on := b\<rparr>"
  "clamp_track (sd\<lparr>phase1 := a, last_phase_on := b\<rparr>) = (clamp_track sd)\<lparr>phase1 := a, last_phase_on := b\<rparr>"
  "clamp_track (sd\<lparr>phase2 := a, last_phase_on := b\<rparr>) = (clamp_track sd)\<lparr>phase2 := a, last_phase_on := b\<rparr>"
  "clamp_track (sd\<lparr>phase3 := a, last_phase_on := b\<rparr>) = (clamp_track sd)\<lparr>phase3 := a, last_phase_on := b\<rparr>"
  by (simp_all add: clamp_track_def)

lemma get_put_drive:
  "d = 0 \<or> d = 1 \<Longrightarrow> get_drive (put_drive c d x) d = Inr x"
  "drive_select (put_drive c d x) = drive_select c"
  by (auto simp add: get_drive_def put_drive_def)

lemma phase_on_access:
  assumes sel: "get_drive c (drive_select c) = Inr sd"
    and lo: "0 \<le> sint (track sd)" and hi: "sint (track sd) < 127"
    and on: "phase_turned_on r = Some p"
  shows "\<exists>c' sd'. diskII_access cy (reg_offset r) c = Inr (0xEE, c')
      \<and> drive_select c' = drive_select c \<and> get_drive c' (drive_select c) = Inr sd'
      \<and> sint (track sd') = max 0 (sint (track sd) + spec_step_table p (last_phase_on sd))
      \<and> last_phase_on sd' = of_nat p"
proof -
  from sel have ds: "drive_select c = 0 \<or> drive_select c = 1"
    by (auto dest: get_drive_InrD)
  note gp = get_put_drive(1) [OF ds] get_put_drive(2)
  have step: "sint (track (clamp_track (phase_on_step lpo dn up (motor_deadline_check cy sd)))) =
     max 0 (sint (track sd) + (if lpo = dn then - 1 else if lpo = up then 1 else 0))"
    for lpo dn up
    using clamp_after_phase_on_step [of "motor_deadline_check cy sd" lpo dn up] lo hi by simp
  from on show ?thesis
  proof (cases r)
    case DiskII_Ph0_On
    have "diskII_access cy 1 c = Inr (0xEE, put_drive c (drive_select c)
        (clamp_track ((phase_on_step (last_phase_on sd) 1 3 (motor_deadline_check cy sd))
          \<lparr>phase0 := 1, last_phase_on := 0\<rparr>)))"
      by (simp add: diskII_access_def sel Let_def)
    with DiskII_Ph0_On on show ?thesis
      by (auto simp add: gp step spec_step_table_def)
  next
    case DiskII_Ph1_On
    have "diskII_access cy 3 c = Inr (0xEE, put_drive c (drive_select c)
        (clamp_track ((phase_on_step (last_phase_on sd) 2 0 (motor_deadline_check cy sd))
          \<lparr>phase1 := 1, last_phase_on := 1\<rparr>)))"
      by (simp add: diskII_access_def sel Let_def)
    with DiskII_Ph1_On on show ?thesis
      by (auto simp add: gp step spec_step_table_def)
  next
    case DiskII_Ph2_On
    have "diskII_access cy 5 c = Inr (0xEE, put_drive c (drive_select c)
        (clamp_track ((phase_on_step (last_phase_on sd) 3 1 (motor_deadline_check cy sd))
          \<lparr>phase2 := 1, last_phase_on := 2\<rparr>)))"
      by (simp add: diskII_access_def sel Let_def)
    with DiskII_Ph2_On on show ?thesis
      by (auto simp add: gp step spec_step_table_def)
  next
    case DiskII_Ph3_On
    have "diskII_access cy 7 c = Inr (0xEE, put_drive c (drive_select c)
        (clamp_track ((phase_on_step (last_phase_on sd) 0 2 (motor_deadline_check cy sd))
          \<lparr>phase3 := 1, last_phase_on := 3\<rparr>)))"
      by (simp add: diskII_access_def sel Let_def)
    with DiskII_Ph3_On on show ?thesis
      by (auto simp add: gp step spec_step_table_def)
  qed simp_all
qed

lemma phase_off_access:
  assumes sel: "get_drive c (drive_select c) = Inr sd"
    and lo: "0 \<le> sint (track sd)"
    and off: "phase_turned_off r = Some q"
    and acc: "diskII_access cy (reg_offset r) c = Inr (v, c')"
  shows "\<exists>sd'. drive_select c' = drive_select c \<and> get_drive c' (drive_select c) = Inr sd'
      \<and> track sd' = track sd \<and> last_phase_on sd' = last_phase_on sd"
  using acc
proof (rule diskII_access_InrE)
  fix sd0 sd' ds
  assume a: "get_drive c (drive_select c) = Inr sd0"
    "c' = put_drive (c\<lparr>drive_select := ds\<rparr>) (drive_select c) sd'"
    "ds = (if reg_offset r = 10 then 0 else if reg_offset r = 11 then 1 else drive_select c)"
    "even (reg_offset r) \<Longrightarrow> 0 \<le> sint (track sd0) \<Longrightarrow> track sd' = track sd0"
    "even (reg_offset r) \<Longrightarrow> last_phase_on sd' = last_phase_on sd0"
  from off have r: "even (reg_offset r)" "reg_offset r \<noteq> 10" "reg_offset r \<noteq> 11"
    by (cases r; simp)+
  from sel have ds: "drive_select c = 0 \<or> drive_select c = 1"
    by (auto dest: get_drive_InrD)
  from a sel lo r show ?thesis
    by (simp add: get_put_drive(1) [OF ds] get_put_drive(2))
qed

text \<open>
  C1, as the code has it. On the selected drive, with the track from 0 to 126: turning a
  phase on completes, moves the track by the step that the table of section 4.3 gives for
  the stored last phase, except that a step below 0 leaves it at 0, and stores the phase as
  the last one turned on; turning a phase off changes neither the track nor the stored
  last phase.
\<close>

theorem phase_step_follows_table:
  assumes "get_drive c (drive_select c) = Inr sd"
    and "0 \<le> sint (track sd)" and "sint (track sd) < 127"
  shows "(phase_turned_on r_on = Some p \<longrightarrow>
           (\<exists>c' sd'. diskII_access cy (reg_offset r_on) c = Inr (0xEE, c')
              \<and> drive_select c' = drive_select c \<and> get_drive c' (drive_select c) = Inr sd'
              \<and> sint (track sd') = max 0 (sint (track sd) + spec_step_table p (last_phase_on sd))
              \<and> last_phase_on sd' = of_nat p))
       \<and> (phase_turned_off r_off = Some q \<longrightarrow>
            diskII_access cy (reg_offset r_off) c = Inr (v, c_off) \<longrightarrow>
           (\<exists>sd'. drive_select c_off = drive_select c \<and> get_drive c_off (drive_select c) = Inr sd'
              \<and> track sd' = track sd \<and> last_phase_on sd' = last_phase_on sd))"
  using phase_on_access [OF assms] phase_off_access [OF assms(1,2)] by blast

theorem phase_step_follows_table_witness:
  "get_drive stepped_below_zero (drive_select stepped_below_zero) = Inr (drive0 stepped_below_zero)
   \<and> sint (track (drive0 stepped_below_zero)) = 0
   \<and> phase_turned_on DiskII_Ph0_On = Some 0
   \<and> spec_step_table 0 (last_phase_on (drive0 stepped_below_zero)) = 1
   \<and> (\<exists>c' sd'. diskII_access 4 (reg_offset DiskII_Ph0_On) stepped_below_zero = Inr (0xEE, c')
         \<and> get_drive c' 0 = Inr sd' \<and> sint (track sd') = 1 \<and> last_phase_on sd' = 0)
   \<and> phase_turned_off DiskII_Ph3_Off = Some 3
   \<and> diskII_access 4 (reg_offset DiskII_Ph3_Off) stepped_below_zero = Inr (0, phase3_released)
   \<and> (\<exists>sd'. get_drive phase3_released 0 = Inr sd' \<and> track sd' = 0 \<and> last_phase_on sd' = 3)"
proof -
  have sel: "get_drive stepped_below_zero (drive_select stepped_below_zero)
      = Inr (drive0 stepped_below_zero)"
    by (simp add: stepped_below_zero_def get_drive_def)
  have tr: "sint (track (drive0 stepped_below_zero)) = 0"
    by (simp add: stepped_below_zero_def)
  have lo: "0 \<le> sint (track (drive0 stepped_below_zero))"
    and hi: "sint (track (drive0 stepped_below_zero)) < 127"
    by (simp_all add: tr)
  have tab: "spec_step_table 0 (last_phase_on (drive0 stepped_below_zero)) = 1"
    by (simp add: stepped_below_zero_def spec_step_table_def)
  have off: "diskII_access 4 (reg_offset DiskII_Ph3_Off) stepped_below_zero
      = Inr (0, phase3_released)"
    by (simp add: diskII_access_def Let_def put_drive_def get_drive_def read_nybble_def
        stepped_below_zero_def phase3_released_def)
  have ds: "drive_select stepped_below_zero = 0"
    "track (drive0 stepped_below_zero) = 0" "last_phase_on (drive0 stepped_below_zero) = 3"
    by (simp_all add: stepped_below_zero_def)
  from phase_step_follows_table [OF sel lo hi, of DiskII_Ph0_On 0 4 DiskII_Ph3_Off 3 0
      phase3_released] sel tr tab off
  show ?thesis by (auto simp add: ds)
qed

text \<open>
  C1 as stated fails at track 0: in the fresh controller the stored last phase is 0, the
  table gives the step -1 for turning phase 3 on, and the track stays at 0.
\<close>

theorem phase_step_counterexample:
  "phase_turned_on DiskII_Ph3_On = Some 3
   \<and> spec_step_table 3 (last_phase_on (drive0 fresh_controller)) = - 1
   \<and> diskII_access 0 (reg_offset DiskII_Ph3_On) fresh_controller = Inr (0xEE, stepped_below_zero)
   \<and> sint (track (drive0 stepped_below_zero)) = sint (track (drive0 fresh_controller))"
  using step_below_zero_clamped(1)
  by (simp add: spec_step_table_def stepped_below_zero_def)

text \<open>
  Beyond the range of the theorem: \<open>track\<close> is a signed byte with no upper limit in the
  handler, so a step up from 127 wraps to -128 and the clamp then sets the track to 0.
\<close>

lemma step_up_from_127:
  assumes "get_drive c (drive_select c) = Inr sd"
    and "track sd = 127" and "last_phase_on sd = 0"
  shows "\<exists>c' sd'. diskII_access cy (reg_offset DiskII_Ph1_On) c = Inr (0xEE, c')
      \<and> get_drive c' (drive_select c) = Inr sd' \<and> track sd' = 0"
proof -
  from assms(1) have ds: "drive_select c = 0 \<or> drive_select c = 1"
    by (auto dest: get_drive_InrD)
  have "diskII_access cy 3 c = Inr (0xEE, put_drive c (drive_select c)
      (clamp_track ((phase_on_step (last_phase_on sd) 2 0 (motor_deadline_check cy sd))
        \<lparr>phase1 := 1, last_phase_on := 1\<rparr>)))"
    by (simp add: diskII_access_def assms(1) Let_def)
  with assms(2,3) show ?thesis
    by (simp add: get_put_drive(1) [OF ds] phase_on_step_def clamp_track_def)
qed

section \<open>The deferred motor stop\<close>

lemma diskII_access_reg:
  assumes "get_drive c (drive_select c) = Inr sd"
    and "reg_switch cy (last_phase_on sd) r (motor_deadline_check cy sd) (drive_select c)
      = (sd2, ds, early)"
  shows "diskII_access cy (reg_offset r) c =
     (case early of
        Some v \<Rightarrow> Inr (v, put_drive (c\<lparr>drive_select := ds\<rparr>) (drive_select c) sd2)
      | None \<Rightarrow>
          if even (reg_offset r) \<and> Q7 sd2 = 0 \<and> Q6 sd2 = 0
          then (case read_nybble sd2 of
                  Inl e \<Rightarrow> Inl e
                | Inr (v, sd3) \<Rightarrow>
                    Inr (v, put_drive (c\<lparr>drive_select := ds\<rparr>) (drive_select c) sd3))
          else Inr (0xEE, put_drive (c\<lparr>drive_select := ds\<rparr>) (drive_select c)
                 (clamp_track sd2)))"
  by (rule diskII_access_unfold [OF assms(1)]) (simp add: assms(2))

lemma get_put_drive_select:
  "d = 0 \<or> d = 1 \<Longrightarrow> get_drive (put_drive (c\<lparr>drive_select := ds\<rparr>) d x) d = Inr x"
  "d \<noteq> e \<Longrightarrow> d = 0 \<or> d = 1 \<Longrightarrow> get_drive (put_drive (c\<lparr>drive_select := ds\<rparr>) d x) e = get_drive c e"
  "drive_select (put_drive (c\<lparr>drive_select := ds\<rparr>) d x) = ds"
  by (auto simp add: get_drive_def put_drive_def)

lemma other_drive_unchanged:
  assumes "diskII_access cy reg c = Inr (v, c')" and "drive_select c \<noteq> d"
  shows "get_drive c' d = get_drive c d"
    and "drive_select c' = (if reg = 10 then 0 else if reg = 11 then 1 else drive_select c)"
proof -
  from assms(1) obtain sd sd' ds where
    sel: "get_drive c (drive_select c) = Inr sd"
    and c': "c' = put_drive (c\<lparr>drive_select := ds\<rparr>) (drive_select c) sd'"
    and ds: "ds = (if reg = 10 then 0 else if reg = 11 then 1 else drive_select c)"
    by (rule diskII_access_InrE)
  from sel have d01: "drive_select c = 0 \<or> drive_select c = 1"
    by (auto dest: get_drive_InrD)
  show "get_drive c' d = get_drive c d"
    using c' assms(2) d01 by (simp add: get_put_drive_select)
  show "drive_select c' = (if reg = 10 then 0 else if reg = 11 then 1 else drive_select c)"
    using c' ds by (simp add: get_put_drive_select)
qed

lemma unselected_drive_idle:
  assumes "c \<in> set (access_trace accs c0)"
    and "get_drive c0 d = Inr idle"
    and "drive_select c0 \<noteq> d"
    and "\<forall>a \<in> set accs. snd a \<noteq> reg_offset (select_reg d)"
  shows "get_drive c d = Inr idle \<and> drive_select c \<noteq> d"
  using assms
proof (induction accs arbitrary: c0)
  case Nil
  then show ?case by simp
next
  case (Cons a accs)
  obtain cy reg where a: "a = (cy, reg)" by (cases a)
  show ?case
  proof (cases "c = c0")
    case True
    with Cons.prems show ?thesis by simp
  next
    case False
    with Cons.prems(1) a obtain v c1 where
      step: "diskII_access cy reg c0 = Inr (v, c1)" and mem: "c \<in> set (access_trace accs c1)"
      by (cases "diskII_access cy reg c0") auto
    from Cons.prems(2) have d: "d = 0 \<or> d = 1" by (auto dest: get_drive_InrD)
    from Cons.prems(4) a have reg: "reg \<noteq> reg_offset (select_reg d)" by simp
    have 1: "get_drive c1 d = Inr idle"
      using other_drive_unchanged(1) [OF step Cons.prems(3)] Cons.prems(2) by simp
    have 2: "drive_select c1 \<noteq> d"
      using other_drive_unchanged(2) [OF step Cons.prems(3)] Cons.prems(3) reg d
      by (auto simp add: select_reg_def split: if_splits)
    from Cons.prems(4) have 3: "\<forall>a \<in> set accs. snd a \<noteq> reg_offset (select_reg d)" by simp
    from Cons.IH [OF mem 1 2 3] show ?thesis .
  qed
qed

lemma reg_switch_motor_stays_off:
  assumes "reg_switch cy lpo r sd1 ds = (sd2, ds', early)"
    and "r \<noteq> DiskII_Motor_On" and "motor sd1 = 0"
  shows "motor sd2 = 0 \<and> mark_cycles_turnoff sd2 = mark_cycles_turnoff sd1
    \<and> head_position sd2 = head_position sd1 \<and> bit_position sd2 = bit_position sd1
    \<and> read_shift_register sd2 = read_shift_register sd1"
  using assms by (cases r) (auto simp add: Let_def phase_on_step_def)

lemma reg_switch_mode:
  assumes "reg_switch cy lpo r sd1 ds = (sd2, ds', early)"
  shows "Q6 sd2 = mode_Q6 r sd1" and "Q7 sd2 = mode_Q7 r sd1"
    and "early \<noteq> None \<longleftrightarrow> senses_write_protect r sd1"
    and "early = Some w \<Longrightarrow> w = push_bit 7 (write_protect sd1)"
  using assms
  by (cases r; auto simp add: mode_Q6_def mode_Q7_def senses_write_protect_def Let_def
      phase_on_step_def split: if_splits)+

lemma mode_motor_deadline_check [simp]:
  "mode_Q6 r (motor_deadline_check cy sd) = mode_Q6 r sd"
  "mode_Q7 r (motor_deadline_check cy sd) = mode_Q7 r sd"
  "senses_write_protect r (motor_deadline_check cy sd) = senses_write_protect r sd"
  "ends_in_read_mode r (motor_deadline_check cy sd) = ends_in_read_mode r sd"
  by (simp_all add: mode_Q6_def mode_Q7_def senses_write_protect_def ends_in_read_mode_def)

lemma read_nybble_motor_off: "motor d = 0 \<Longrightarrow> read_nybble d = Inr (read_shift_register d, d)"
  by (simp add: read_nybble_def)

lemma motor_deadline_check_expired:
  "motor sd = 1 \<Longrightarrow> mark_cycles_turnoff sd \<noteq> 0 \<Longrightarrow> mark_cycles_turnoff sd < cy \<Longrightarrow>
     motor_deadline_check cy sd = sd\<lparr>motor := 0, mark_cycles_turnoff := 0\<rparr>"
  by (simp add: motor_deadline_check_def)

text \<open>
  An access to the selected drive after its deadline: the motor is stopped and the
  deadline cleared, whatever the register, unless the register is the motor-on one; the
  head and the latched byte stay as they were, and the access completes.
\<close>

lemma access_after_deadline:
  assumes sel: "get_drive c (drive_select c) = Inr sd"
    and on: "motor sd = 1" and set: "mark_cycles_turnoff sd \<noteq> 0"
    and late: "mark_cycles_turnoff sd < cy"
    and r: "r \<noteq> DiskII_Motor_On"
  shows "\<exists>v c' sd'. diskII_access cy (reg_offset r) c = Inr (v, c')
      \<and> get_drive c' (drive_select c) = Inr sd'
      \<and> motor sd' = 0 \<and> mark_cycles_turnoff sd' = 0
      \<and> head_position sd' = head_position sd \<and> bit_position sd' = bit_position sd
      \<and> read_shift_register sd' = read_shift_register sd
      \<and> (ends_in_read_mode r sd \<and> \<not> senses_write_protect r sd \<longrightarrow> v = read_shift_register sd)"
proof -
  from sel have d01: "drive_select c = 0 \<or> drive_select c = 1"
    by (auto dest: get_drive_InrD)
  let ?sd1 = "motor_deadline_check cy sd"
  have sd1: "?sd1 = sd\<lparr>motor := 0, mark_cycles_turnoff := 0\<rparr>"
    using on set late by (rule motor_deadline_check_expired)
  obtain sd2 ds early where
    sw: "reg_switch cy (last_phase_on sd) r ?sd1 (drive_select c) = (sd2, ds, early)"
    by (metis prod_cases3)
  from reg_switch_motor_stays_off [OF sw r] sd1
  have sd2: "motor sd2 = 0" "mark_cycles_turnoff sd2 = 0"
    "head_position sd2 = head_position sd" "bit_position sd2 = bit_position sd"
    "read_shift_register sd2 = read_shift_register sd"
    by simp_all
  have mode: "Q6 sd2 = mode_Q6 r sd \<and> Q7 sd2 = mode_Q7 r sd
      \<and> (early \<noteq> None \<longleftrightarrow> senses_write_protect r sd)"
    using reg_switch_mode(1-3) [OF sw] by simp
  note acc = diskII_access_reg [OF sel sw]
  show ?thesis
  proof (cases early)
    case (Some w)
    with acc sd2 mode show ?thesis
      by (simp add: get_put_drive_select(1) [OF d01])
  next
    case None
    with acc sd2 mode show ?thesis
      by (cases "even (reg_offset r) \<and> mode_Q7 r sd = 0 \<and> mode_Q6 r sd = 0")
        (auto simp add: get_put_drive_select(1) [OF d01] read_nybble_motor_off
          ends_in_read_mode_def)
  qed
qed

text \<open>
  C10. A drive that is not the selected one, through any sequence of accesses that does
  not select it: its state stays what it was in every state passed through, so its motor
  stays on however far the cycle count of the accesses is past its deadline. The access
  that selects it still leaves it untouched (the handler works on the drive selected on
  entry). Only the next access, made with the drive selected and past the deadline, stops
  its motor and clears the deadline.
\<close>

theorem deadline_check_skips_unselected_drive:
  assumes "c \<in> set (access_trace accs c0)"
    and "get_drive c0 d = Inr idle"
    and "drive_select c0 \<noteq> d"
    and "\<forall>a \<in> set accs. snd a \<noteq> reg_offset (select_reg d)"
  shows "get_drive c d = Inr idle \<and> drive_select c \<noteq> d
     \<and> (diskII_access cy1 (reg_offset (select_reg d)) c = Inr (v1, c1) \<longrightarrow>
          get_drive c1 d = Inr idle \<and> drive_select c1 = d
          \<and> (motor idle = 1 \<longrightarrow> mark_cycles_turnoff idle \<noteq> 0 \<longrightarrow>
               mark_cycles_turnoff idle < cy2 \<longrightarrow> r \<noteq> DiskII_Motor_On \<longrightarrow>
              (\<exists>v2 c2 sd. diskII_access cy2 (reg_offset r) c1 = Inr (v2, c2)
                 \<and> get_drive c2 d = Inr sd \<and> motor sd = 0 \<and> mark_cycles_turnoff sd = 0)))"
proof -
  have idle: "get_drive c d = Inr idle" and unsel: "drive_select c \<noteq> d"
    using unselected_drive_idle [OF assms] by simp_all
  from assms(2) have d: "d = 0 \<or> d = 1" by (auto dest: get_drive_InrD)
  have "get_drive c1 d = Inr idle \<and> drive_select c1 = d
      \<and> (motor idle = 1 \<longrightarrow> mark_cycles_turnoff idle \<noteq> 0 \<longrightarrow>
               mark_cycles_turnoff idle < cy2 \<longrightarrow> r \<noteq> DiskII_Motor_On \<longrightarrow>
              (\<exists>v2 c2 sd. diskII_access cy2 (reg_offset r) c1 = Inr (v2, c2)
                 \<and> get_drive c2 d = Inr sd \<and> motor sd = 0 \<and> mark_cycles_turnoff sd = 0))"
    if step: "diskII_access cy1 (reg_offset (select_reg d)) c = Inr (v1, c1)"
  proof -
    have 1: "get_drive c1 d = Inr idle"
      using other_drive_unchanged(1) [OF step unsel] idle by simp
    have 2: "drive_select c1 = d"
      using other_drive_unchanged(2) [OF step unsel] d by (auto simp add: select_reg_def)
    from 1 2 have sel: "get_drive c1 (drive_select c1) = Inr idle" by simp
    show ?thesis
      using 1 2 access_after_deadline [OF sel, of cy2 r] by auto
  qed
  with idle unsel show ?thesis by blast
qed

lemma idle_scenario_run:
  "access_trace [(1000000, 1), (2000000, 9)] idle_scenario
     = [idle_scenario, idle_scenario\<lparr>drive0 := (drive0 fresh_controller)\<lparr>phase0 := 1\<rparr>\<rparr>,
        busy_scenario]"
  "diskII_access 3000000 11 busy_scenario = Inr (0xEE, reselected_scenario)"
  by (simp_all add: diskII_access_def Let_def put_drive_def get_drive_def phase_on_step_def
      clamp_track_def idle_scenario_def busy_scenario_def reselected_scenario_def)

theorem deadline_check_skips_unselected_drive_witness:
  "busy_scenario \<in> set (access_trace [(1000000, 1), (2000000, 9)] idle_scenario)
   \<and> get_drive idle_scenario 1 = Inr idle_drive
   \<and> drive_select idle_scenario \<noteq> 1
   \<and> list_all (\<lambda>a. snd a \<noteq> reg_offset (select_reg 1)) [(1000000, 1), (2000000 :: u64, 9 :: nat)]
   \<and> motor idle_drive = 1 \<and> mark_cycles_turnoff idle_drive = 100
   \<and> get_drive busy_scenario 1 = Inr idle_drive
   \<and> diskII_access 3000000 (reg_offset (select_reg 1)) busy_scenario = Inr (0xEE, reselected_scenario)
   \<and> get_drive reselected_scenario 1 = Inr idle_drive
   \<and> (\<exists>v2 c2 sd. diskII_access 3000001 (reg_offset DiskII_Q6H) reselected_scenario = Inr (v2, c2)
         \<and> get_drive c2 1 = Inr sd \<and> motor sd = 0 \<and> mark_cycles_turnoff sd = 0)"
proof -
  have mem: "busy_scenario \<in> set (access_trace [(1000000, 1), (2000000, 9)] idle_scenario)"
    by (simp only: idle_scenario_run(1)) simp
  have idle: "get_drive idle_scenario 1 = Inr idle_drive"
    by (simp add: idle_scenario_def get_drive_def)
  have unsel: "drive_select idle_scenario \<noteq> 1"
    by (simp add: idle_scenario_def)
  have nosel: "\<forall>a \<in> set [(1000000, 1), (2000000 :: u64, 9 :: nat)]. snd a \<noteq> reg_offset (select_reg 1)"
    by (simp add: select_reg_def)
  have sel: "diskII_access 3000000 (reg_offset (select_reg 1)) busy_scenario
      = Inr (0xEE, reselected_scenario)"
    using idle_scenario_run(2) by (simp add: select_reg_def)
  have m: "motor idle_drive = 1" "mark_cycles_turnoff idle_drive = 100"
    "mark_cycles_turnoff idle_drive \<noteq> 0" "mark_cycles_turnoff idle_drive < 3000001"
    by (simp_all add: idle_drive_def)
  have r: "DiskII_Q6H \<noteq> DiskII_Motor_On" by simp
  from deadline_check_skips_unselected_drive [OF mem idle unsel nosel,
      of 3000000 "0xEE" reselected_scenario 3000001 DiskII_Q6H]
    mem idle unsel nosel sel m r
  show ?thesis by simp
qed

lemma bit_position_inc:
  assumes "unat (bp :: u8) < 8"
  shows "unat (bp + 1) = unat bp + 1" and "bp + 1 = 8 \<longleftrightarrow> bp = 7"
proof -
  show u: "unat (bp + 1) = unat bp + 1"
    using assms by (simp add: unat_word_ariths)
  have "bp + 1 = 8 \<longleftrightarrow> unat (bp + 1) = unat (8 :: u8)"
    by (simp only: word_unat_eq_iff)
  also have "\<dots> \<longleftrightarrow> unat bp = unat (7 :: u8)" using u by simp
  also have "\<dots> \<longleftrightarrow> bp = 7" by (simp only: word_unat_eq_iff)
  finally show "bp + 1 = 8 \<longleftrightarrow> bp = 7" .
qed

lemma shift_out_spinning:
  assumes "unat (bit_position d) < 8"
  shows "shift_out d = Inr (drop_bit (7 - unat (bit_position d)) (read_shift_register d),
     d\<lparr>bit_position := (if bit_position d = 7 then 0 else bit_position d + 1)\<rparr>)"
  using assms bit_position_inc [OF assms]
  by (simp add: shift_out_def Let_def)

lemma load_shift_register_bit_position [simp]:
  "load_shift_register d = Inr d' \<Longrightarrow> bit_position d' = bit_position d"
  by (rule load_shift_register_fields)

lemma load_shift_register_InrD:
  assumes "load_shift_register d = Inr d1"
  shows "track_byte d = Inr (read_shift_register d1)"
    and "head_position d1 = (if 0x1A00 \<le> head_position d then 0 else head_position d + 1)"
    and "bit_position d1 = bit_position d"
  using assms
  by (auto simp add: load_shift_register_def spin_head_def Let_def split: sum.splits)

lemma read_nybble_spinning:
  assumes "motor d \<noteq> 0" and "unat (bit_position d) < 8" and "read_nybble d = Inr (v, d')"
  shows "motor d' = motor d"
    and "bit_position d' = (if bit_position d = 7 then 0 else bit_position d + 1)"
    and "v = drop_bit (7 - unat (bit_position d)) (read_shift_register d')"
    and "bit_position d = 0 \<Longrightarrow> track_byte d = Inr (read_shift_register d')
          \<and> head_position d' = (if 0x1A00 \<le> head_position d then 0 else head_position d + 1)"
    and "bit_position d \<noteq> 0 \<Longrightarrow> head_position d' = head_position d
          \<and> read_shift_register d' = read_shift_register d"
proof -
  show "motor d' = motor d" using assms(3) by (rule read_nybble_fields)
  obtain d1 where d1: "(if bit_position d = 0 then load_shift_register d else Inr d) = Inr d1"
    and so: "shift_out d1 = Inr (v, d')"
    using assms(1,3) by (simp add: read_nybble_def split: sum.splits)
  have bp: "bit_position d1 = bit_position d"
    using d1 by (cases "bit_position d = 0") (simp_all add: load_shift_register_InrD(3))
  with assms(2) have "unat (bit_position d1) < 8" by simp
  from shift_out_spinning [OF this] so bp
  have v: "v = drop_bit (7 - unat (bit_position d)) (read_shift_register d1)"
    and d': "d' = d1\<lparr>bit_position := (if bit_position d = 7 then 0 else bit_position d + 1)\<rparr>"
    by simp_all
  show "bit_position d' = (if bit_position d = 7 then 0 else bit_position d + 1)"
    by (simp add: d')
  show "v = drop_bit (7 - unat (bit_position d)) (read_shift_register d')"
    by (simp add: v d')
  show "track_byte d = Inr (read_shift_register d')
          \<and> head_position d' = (if 0x1A00 \<le> head_position d then 0 else head_position d + 1)"
    if "bit_position d = 0"
    using that d1 load_shift_register_InrD(1,2) [of d d1] by (simp add: d')
  show "head_position d' = head_position d \<and> read_shift_register d' = read_shift_register d"
    if "bit_position d \<noteq> 0"
    using that d1 by (simp add: d')
qed

lemma track_byte_cong [simp]:
  "track_byte (d\<lparr>Q6 := q\<rparr>) = track_byte d"
  "track_byte (d\<lparr>mark_cycles_turnoff := m\<rparr>) = track_byte d"
  by (simp_all add: track_byte_def Let_def)

lemma motor_off_defers:
  assumes sel: "get_drive c (drive_select c) = Inr sd"
    and on: "motor sd = 1"
    and early: "mark_cycles_turnoff sd = 0 \<or> cy \<le> mark_cycles_turnoff sd"
    and acc: "diskII_access cy (reg_offset DiskII_Motor_Off) c = Inr (v, c1)"
  shows "\<exists>sd1. get_drive c1 (drive_select c) = Inr sd1 \<and> motor sd1 = 1
      \<and> mark_cycles_turnoff sd1 = cy + 750000"
proof -
  from sel have d01: "drive_select c = 0 \<or> drive_select c = 1"
    by (auto dest: get_drive_InrD)
  from early have idle: "motor_deadline_check cy sd = sd" by auto
  have sw: "reg_switch cy (last_phase_on sd) DiskII_Motor_Off (motor_deadline_check cy sd)
      (drive_select c) = (sd\<lparr>mark_cycles_turnoff := cy + 750000\<rparr>, drive_select c, None)"
    using on by (simp add: idle)
  note a = acc [unfolded diskII_access_reg [OF sel sw]]
  show ?thesis
  proof (cases "Q7 sd = 0 \<and> Q6 sd = 0")
    case True
    with a obtain sd3 where rn: "read_nybble (sd\<lparr>mark_cycles_turnoff := cy + 750000\<rparr>) = Inr (v, sd3)"
      and c1: "c1 = put_drive c (drive_select c) sd3"
      by (auto split: sum.splits)
    from read_nybble_fields(3,4) [OF rn] on c1 show ?thesis
      by (simp add: get_put_drive(1) [OF d01])
  next
    case False
    with a on show ?thesis
      by (auto simp add: get_put_drive(1) [OF d01])
  qed
qed

lemma read_before_deadline:
  assumes sel: "get_drive c (drive_select c) = Inr sd"
    and on: "motor sd = 1"
    and early: "mark_cycles_turnoff sd = 0 \<or> cy \<le> mark_cycles_turnoff sd"
    and q7: "Q7 sd = 0" and bp: "unat (bit_position sd) < 8"
    and acc: "diskII_access cy (reg_offset DiskII_Q6L) c = Inr (v, c2)"
  shows "\<exists>sd2. get_drive c2 (drive_select c) = Inr sd2 \<and> motor sd2 = 1
      \<and> mark_cycles_turnoff sd2 = mark_cycles_turnoff sd
      \<and> bit_position sd2 = (if bit_position sd = 7 then 0 else bit_position sd + 1)
      \<and> v = drop_bit (7 - unat (bit_position sd)) (read_shift_register sd2)
      \<and> (if bit_position sd = 0
         then track_byte sd = Inr (read_shift_register sd2)
           \<and> head_position sd2 = (if 0x1A00 \<le> head_position sd then 0 else head_position sd + 1)
         else read_shift_register sd2 = read_shift_register sd
           \<and> head_position sd2 = head_position sd)"
proof -
  from sel have d01: "drive_select c = 0 \<or> drive_select c = 1"
    by (auto dest: get_drive_InrD)
  from early have idle: "motor_deadline_check cy sd = sd" by auto
  have sw: "reg_switch cy (last_phase_on sd) DiskII_Q6L (motor_deadline_check cy sd)
      (drive_select c) = (sd\<lparr>Q6 := 0\<rparr>, drive_select c, None)"
    by (simp add: idle)
  note a = acc [unfolded diskII_access_reg [OF sel sw]]
  with q7 obtain sd3 where rn: "read_nybble (sd\<lparr>Q6 := 0\<rparr>) = Inr (v, sd3)"
    and c2: "c2 = put_drive c (drive_select c) sd3"
    by (auto split: sum.splits)
  have m: "motor (sd\<lparr>Q6 := 0\<rparr>) \<noteq> 0" and b: "unat (bit_position (sd\<lparr>Q6 := 0\<rparr>)) < 8"
    using on bp by simp_all
  from read_nybble_spinning [OF m b rn] read_nybble_fields(4) [OF rn] on c2
  show ?thesis
    by (simp add: get_put_drive(1) [OF d01])
qed

lemma motor_on_access:
  assumes sel: "get_drive c (drive_select c) = Inr sd"
  shows "\<exists>c4 sd4. diskII_access cy (reg_offset DiskII_Motor_On) c = Inr (0xEE, c4)
      \<and> get_drive c4 (drive_select c) = Inr sd4 \<and> motor sd4 = 1
      \<and> mark_cycles_turnoff sd4 = 0"
proof -
  from sel have d01: "drive_select c = 0 \<or> drive_select c = 1"
    by (auto dest: get_drive_InrD)
  have "diskII_access cy 9 c = Inr (0xEE, put_drive c (drive_select c)
      (clamp_track ((motor_deadline_check cy sd)\<lparr>motor := 1, mark_cycles_turnoff := 0\<rparr>)))"
    by (simp add: diskII_access_def sel Let_def)
  then show ?thesis
    by (simp add: get_put_drive(1) [OF d01])
qed

text \<open>
  C3, as the code has it. For the selected drive with its motor on: while the cycle count
  has not passed the deadline (or none is pending), a motor-off access sets the deadline
  to the cycle count plus 750000 and leaves the motor on, and a read of the data register
  Q6L in Read mode sees the motor on, shifts the next bit out and, on the first bit of a
  byte, latches the byte under the head and advances the head. Once the cycle count is
  strictly greater than the deadline, every access but motor-on stops the motor and clears
  the deadline before anything else, so that it completes with the head, the bit counter
  and the latched byte unchanged, and a read in Read mode returns the latched byte. A
  motor-on access always sets the motor on and clears the deadline.
\<close>

theorem deferred_motor_stop:
  assumes "get_drive c (drive_select c) = Inr sd"
  shows "(motor sd = 1 \<and> (mark_cycles_turnoff sd = 0 \<or> cy \<le> mark_cycles_turnoff sd) \<longrightarrow>
       (diskII_access cy (reg_offset DiskII_Motor_Off) c = Inr (v1, c1) \<longrightarrow>
          (\<exists>sd1. get_drive c1 (drive_select c) = Inr sd1 \<and> motor sd1 = 1
             \<and> mark_cycles_turnoff sd1 = cy + 750000))
     \<and> (Q7 sd = 0 \<and> unat (bit_position sd) < 8
          \<and> diskII_access cy (reg_offset DiskII_Q6L) c = Inr (v2, c2) \<longrightarrow>
          (\<exists>sd2. get_drive c2 (drive_select c) = Inr sd2 \<and> motor sd2 = 1
             \<and> mark_cycles_turnoff sd2 = mark_cycles_turnoff sd
             \<and> bit_position sd2 = (if bit_position sd = 7 then 0 else bit_position sd + 1)
             \<and> v2 = drop_bit (7 - unat (bit_position sd)) (read_shift_register sd2)
             \<and> (if bit_position sd = 0
                then track_byte sd = Inr (read_shift_register sd2)
                  \<and> head_position sd2
                      = (if 0x1A00 \<le> head_position sd then 0 else head_position sd + 1)
                else read_shift_register sd2 = read_shift_register sd
                  \<and> head_position sd2 = head_position sd))))
   \<and> (motor sd = 1 \<and> mark_cycles_turnoff sd \<noteq> 0 \<and> mark_cycles_turnoff sd < cy_late
        \<and> r \<noteq> DiskII_Motor_On \<longrightarrow>
        (\<exists>v c' sd'. diskII_access cy_late (reg_offset r) c = Inr (v, c')
           \<and> get_drive c' (drive_select c) = Inr sd'
           \<and> motor sd' = 0 \<and> mark_cycles_turnoff sd' = 0
           \<and> head_position sd' = head_position sd \<and> bit_position sd' = bit_position sd
           \<and> read_shift_register sd' = read_shift_register sd
           \<and> (ends_in_read_mode r sd \<and> \<not> senses_write_protect r sd \<longrightarrow>
                v = read_shift_register sd)))
   \<and> (\<exists>c4 sd4. diskII_access cy_on (reg_offset DiskII_Motor_On) c = Inr (0xEE, c4)
          \<and> get_drive c4 (drive_select c) = Inr sd4 \<and> motor sd4 = 1
          \<and> mark_cycles_turnoff sd4 = 0)"
  using motor_off_defers [OF assms, of cy v1 c1] read_before_deadline [OF assms, of cy v2 c2]
    access_after_deadline [OF assms, of cy_late r] motor_on_access [OF assms, of cy_on]
  by blast

lemma coasting_fields:
  "get_drive coasting (drive_select coasting) = Inr coasting_drive"
  "get_drive coasting 0 = Inr coasting_drive"
  "drive_select coasting = 0"
  "motor coasting_drive = 1" "mark_cycles_turnoff coasting_drive = 750000"
  "Q6 coasting_drive = 0" "Q7 coasting_drive = 0" "bit_position coasting_drive = 1"
  "head_position coasting_drive = 1" "read_shift_register coasting_drive = 0xFF"
  "track coasting_drive = 0" "nibblized coasting_drive = sync_disk"
  by (simp_all add: coasting_def coasting_drive_def mounted_controller_def get_drive_def)

lemma coasting_reached:
  "run_accesses [(0, 9), (0, 8)] mounted_controller = Inr ([0xEE, 1], coasting)"
  by (simp add: diskII_access_def Let_def put_drive_def get_drive_def clamp_track_def
      read_nybble_def load_shift_register_def track_byte_def half_track_def spin_head_def
      shift_out_def sync_disk_def
      mounted_controller_def coasting_def coasting_drive_def)

lemma coasting_accesses:
  "diskII_access 750000 12 coasting = Inr (3, coasting_shifted)"
  "diskII_access 750000 8 coasting = Inr (3, coasting_rescheduled)"
  by (simp_all add: diskII_access_def Let_def put_drive_def coasting_fields read_nybble_def
      shift_out_def coasting_shifted_def coasting_rescheduled_def)

theorem deferred_motor_stop_witness:
  "get_drive coasting (drive_select coasting) = Inr coasting_drive
   \<and> motor coasting_drive = 1 \<and> mark_cycles_turnoff coasting_drive = 750000
   \<and> Q7 coasting_drive = 0 \<and> bit_position coasting_drive = 1
   \<and> read_shift_register coasting_drive = 0xFF
   \<and> diskII_access 750000 (reg_offset DiskII_Motor_Off) coasting = Inr (3, coasting_rescheduled)
   \<and> motor (drive0 coasting_rescheduled) = 1
   \<and> mark_cycles_turnoff (drive0 coasting_rescheduled) = 750000 + 750000
   \<and> diskII_access 750000 (reg_offset DiskII_Q6L) coasting = Inr (3, coasting_shifted)
   \<and> motor (drive0 coasting_shifted) = 1 \<and> bit_position (drive0 coasting_shifted) = 2
   \<and> DiskII_Q6L \<noteq> DiskII_Motor_On \<and> ends_in_read_mode DiskII_Q6L coasting_drive
   \<and> \<not> senses_write_protect DiskII_Q6L coasting_drive
   \<and> (\<exists>c' sd'. diskII_access 750001 (reg_offset DiskII_Q6L) coasting = Inr (0xFF, c')
         \<and> get_drive c' 0 = Inr sd' \<and> motor sd' = 0 \<and> mark_cycles_turnoff sd' = 0
         \<and> head_position sd' = 1 \<and> bit_position sd' = 1 \<and> read_shift_register sd' = 0xFF)
   \<and> (\<exists>c4 sd4. diskII_access 750001 (reg_offset DiskII_Motor_On) coasting = Inr (0xEE, c4)
         \<and> get_drive c4 0 = Inr sd4 \<and> motor sd4 = 1 \<and> mark_cycles_turnoff sd4 = 0)"
proof -
  note f = coasting_fields
  have early: "mark_cycles_turnoff coasting_drive = 0
      \<or> (750000 :: u64) \<le> mark_cycles_turnoff coasting_drive"
    and late: "mark_cycles_turnoff coasting_drive \<noteq> 0"
      "mark_cycles_turnoff coasting_drive < 750001"
    and bp: "unat (bit_position coasting_drive) < 8"
    by (simp_all add: f)
  have r: "DiskII_Q6L \<noteq> DiskII_Motor_On" "ends_in_read_mode DiskII_Q6L coasting_drive"
    "\<not> senses_write_protect DiskII_Q6L coasting_drive"
    by (simp_all add: ends_in_read_mode_def senses_write_protect_def mode_Q6_def mode_Q7_def f)
  have off: "diskII_access 750000 (reg_offset DiskII_Motor_Off) coasting
      = Inr (3, coasting_rescheduled)"
    and rd: "diskII_access 750000 (reg_offset DiskII_Q6L) coasting = Inr (3, coasting_shifted)"
    using coasting_accesses by simp_all
  have res: "motor (drive0 coasting_rescheduled) = 1"
    "mark_cycles_turnoff (drive0 coasting_rescheduled) = 750000 + 750000"
    "motor (drive0 coasting_shifted) = 1" "bit_position (drive0 coasting_shifted) = 2"
    by (simp_all add: coasting_rescheduled_def coasting_shifted_def f)
  from deferred_motor_stop [OF f(1), of 750000 3 coasting_rescheduled 3 coasting_shifted
      750001 DiskII_Q6L 750001]
  have "(\<exists>v c' sd'. diskII_access 750001 (reg_offset DiskII_Q6L) coasting = Inr (v, c')
           \<and> get_drive c' (drive_select coasting) = Inr sd'
           \<and> motor sd' = 0 \<and> mark_cycles_turnoff sd' = 0
           \<and> head_position sd' = head_position coasting_drive
           \<and> bit_position sd' = bit_position coasting_drive
           \<and> read_shift_register sd' = read_shift_register coasting_drive
           \<and> (ends_in_read_mode DiskII_Q6L coasting_drive
                 \<and> \<not> senses_write_protect DiskII_Q6L coasting_drive \<longrightarrow>
                v = read_shift_register coasting_drive))
     \<and> (\<exists>c4 sd4. diskII_access 750001 (reg_offset DiskII_Motor_On) coasting = Inr (0xEE, c4)
          \<and> get_drive c4 (drive_select coasting) = Inr sd4 \<and> motor sd4 = 1
          \<and> mark_cycles_turnoff sd4 = 0)"
    using coasting_fields(4) late r(1) by blast
  then have "(\<exists>c' sd'. diskII_access 750001 (reg_offset DiskII_Q6L) coasting = Inr (0xFF, c')
         \<and> get_drive c' 0 = Inr sd' \<and> motor sd' = 0 \<and> mark_cycles_turnoff sd' = 0
         \<and> head_position sd' = 1 \<and> bit_position sd' = 1 \<and> read_shift_register sd' = 0xFF)
   \<and> (\<exists>c4 sd4. diskII_access 750001 (reg_offset DiskII_Motor_On) coasting = Inr (0xEE, c4)
         \<and> get_drive c4 0 = Inr sd4 \<and> motor sd4 = 1 \<and> mark_cycles_turnoff sd4 = 0)"
    using r(2,3) by (auto simp add: f)
  with f r off rd res show ?thesis by simp
qed

text \<open>
  C3 as stated fails at the deadline itself. The motor of \<open>coasting\<close> was commanded off at
  cycle 0, so its deadline is 750000; a read of the data register at cycle 750000 leaves
  the motor on and the deadline pending, and returns shifted data (3, the two leading
  bits of the latched 0xFF), not the latched byte.
\<close>

theorem motor_stop_at_deadline_counterexample:
  "motor coasting_drive = 1 \<and> mark_cycles_turnoff coasting_drive = 750000
   \<and> read_shift_register coasting_drive = 0xFF \<and> bit_position coasting_drive = 1
   \<and> diskII_access 750000 (reg_offset DiskII_Q6L) coasting = Inr (3, coasting_shifted)
   \<and> motor (drive0 coasting_shifted) = 1
   \<and> mark_cycles_turnoff (drive0 coasting_shifted) = 750000
   \<and> bit_position (drive0 coasting_shifted) = 2"
  using coasting_accesses(1)
  by (simp add: coasting_fields coasting_shifted_def)

section \<open>Eight reads shift one byte out\<close>

lemma put_drive_idem:
  "get_drive c d = Inr sd \<Longrightarrow> put_drive c d sd = c"
  "put_drive (put_drive c d x) d y = put_drive c d y"
  by (auto simp add: get_drive_def put_drive_def split: if_splits)

lemma Q6_already_low: "Q6 sd = 0 \<Longrightarrow> sd\<lparr>Q6 := 0\<rparr> = sd"
  by (cases sd) simp

text \<open>A read of Q6L in Read mode, motor on and no deadline passed, is the bit-serial read.\<close>

lemma data_register_read:
  assumes sel: "get_drive c (drive_select c) = Inr sd"
    and on: "motor sd = 1"
    and early: "mark_cycles_turnoff sd = 0 \<or> cy \<le> mark_cycles_turnoff sd"
    and q6: "Q6 sd = 0" and q7: "Q7 sd = 0"
  shows "diskII_access cy 12 c =
     (case read_nybble sd of
        Inl e \<Rightarrow> Inl e
      | Inr (v, sd') \<Rightarrow> Inr (v, put_drive c (drive_select c) sd'))"
proof -
  from early have idle: "motor_deadline_check cy sd = sd" by auto
  have sw: "reg_switch cy (last_phase_on sd) DiskII_Q6L (motor_deadline_check cy sd)
      (drive_select c) = (sd, drive_select c, None)"
    by (simp add: idle Q6_already_low [OF q6])
  have same: "c\<lparr>drive_select := drive_select c\<rparr> = c" by simp
  from diskII_access_reg [OF sel sw, unfolded same] q6 q7 show ?thesis by simp
qed

lemma read_nybble_first_bit:
  assumes "motor sd \<noteq> 0" and "bit_position sd = 0" and "track_byte sd = Inr b"
    and "head_position sd < 0x1A00"
  shows "read_nybble sd = Inr (drop_bit 7 b,
     sd\<lparr>read_shift_register := b, head_position := head_position sd + 1, bit_position := 1\<rparr>)"
proof -
  let ?sd1 = "sd\<lparr>read_shift_register := b, head_position := head_position sd + 1\<rparr>"
  from assms(4) have "\<not> 0x1A00 \<le> head_position sd" by (simp only: not_le)
  then have l: "load_shift_register sd = Inr ?sd1"
    by (simp add: load_shift_register_def spin_head_def Let_def assms(3))
  have "unat (bit_position ?sd1) < 8" by (simp add: assms(2))
  from shift_out_spinning [OF this]
  have "shift_out ?sd1 = Inr (drop_bit 7 b, ?sd1\<lparr>bit_position := 1\<rparr>)"
    by (simp add: assms(2))
  with l assms(1,2) show ?thesis by (simp add: read_nybble_def)
qed

lemma read_nybble_next_bit:
  assumes "motor sd \<noteq> 0" and "bit_position sd \<noteq> 0" and "unat (bit_position sd) < 8"
  shows "read_nybble sd = Inr (drop_bit (7 - unat (bit_position sd)) (read_shift_register sd),
     sd\<lparr>bit_position := (if bit_position sd = 7 then 0 else bit_position sd + 1)\<rparr>)"
  using assms by (simp add: read_nybble_def shift_out_spinning)

lemma rest_of_byte:
  assumes "get_drive c (drive_select c) = Inr sd"
    and "motor sd = 1" and "Q6 sd = 0" and "Q7 sd = 0"
    and "unat (bit_position sd) = k" and "0 < k" and "k < 8" and "k + length cys \<le> 8"
    and "\<forall>cy \<in> set cys. mark_cycles_turnoff sd = 0 \<or> cy \<le> mark_cycles_turnoff sd"
  shows "run_accesses (map (\<lambda>cy. (cy, 12)) cys) c =
     Inr (map (\<lambda>j. drop_bit (7 - j) (read_shift_register sd)) [k..<k + length cys],
       put_drive c (drive_select c)
         (sd\<lparr>bit_position := (if k + length cys = 8 then 0 else of_nat (k + length cys))\<rparr>))"
  using assms
proof (induction cys arbitrary: c sd k)
  case Nil
  from Nil.prems(5,7) have "(of_nat k :: u8) = bit_position sd" "k \<noteq> 8" by auto
  with Nil.prems(1) show ?case by (simp add: put_drive_idem)
next
  case (Cons cy cys)
  let ?d = "drive_select c"
  let ?sd' = "sd\<lparr>bit_position := (if bit_position sd = 7 then 0 else bit_position sd + 1)\<rparr>"
  let ?c' = "put_drive c ?d ?sd'"
  from Cons.prems(1) have d01: "?d = 0 \<or> ?d = 1" by (auto dest: get_drive_InrD)
  from Cons.prems(5,6,7) have k: "unat (bit_position sd) < 8" "bit_position sd \<noteq> 0"
    by auto
  from Cons.prems(9) have early: "mark_cycles_turnoff sd = 0 \<or> cy \<le> mark_cycles_turnoff sd"
    by auto
  have m: "motor sd \<noteq> 0" using Cons.prems(2) by simp
  have step: "diskII_access cy 12 c
      = Inr (drop_bit (7 - k) (read_shift_register sd), ?c')"
    unfolding data_register_read [OF Cons.prems(1,2) early Cons.prems(3,4)]
      read_nybble_next_bit [OF m k(2,1)] Cons.prems(5)
    by simp
  have seven: "bit_position sd = 7 \<longleftrightarrow> k = 7"
  proof -
    have "bit_position sd = 7 \<longleftrightarrow> unat (bit_position sd) = unat (7 :: u8)"
      by (simp only: word_unat_eq_iff)
    then show ?thesis using Cons.prems(5) by simp
  qed
  show ?case
  proof (cases "k = 7")
    case True
    with Cons.prems(8) have "cys = []" by simp
    then show ?thesis using step True seven by simp
  next
    case False
    with seven have ne: "bit_position sd \<noteq> 7" by simp
    have u: "unat (bit_position sd + 1) = k + 1"
      using bit_position_inc(1) [OF k(1)] Cons.prems(5) by simp
    have sel': "get_drive ?c' (drive_select ?c') = Inr ?sd'"
      by (simp add: get_put_drive(1) [OF d01] get_put_drive(2))
    have p: "motor ?sd' = 1" "Q6 ?sd' = 0" "Q7 ?sd' = 0" "unat (bit_position ?sd') = k + 1"
      "0 < k + 1" "k + 1 < 8" "k + 1 + length cys \<le> 8"
      "\<forall>cy \<in> set cys. mark_cycles_turnoff ?sd' = 0 \<or> cy \<le> mark_cycles_turnoff ?sd'"
      using Cons.prems(2,3,4,7,8,9) ne u False by auto
    note ih = Cons.IH [OF sel' p]
    have "k < k + length (cy # cys)" by simp
    from upt_conv_Cons [OF this]
    have upt: "[k..<k + length (cy # cys)] = k # [k + 1..<k + 1 + length cys]"
      by simp
    have fin: "put_drive ?c' (drive_select ?c')
           (?sd'\<lparr>bit_position := (if k + 1 + length cys = 8 then 0
                else of_nat (k + 1 + length cys))\<rparr>)
        = put_drive c ?d (sd\<lparr>bit_position := (if k + length (cy # cys) = 8 then 0
                else of_nat (k + length (cy # cys)))\<rparr>)"
      by (simp add: get_put_drive(2) put_drive_idem(2))
    have rsr: "read_shift_register ?sd' = read_shift_register sd" by simp
    have "run_accesses (map (\<lambda>cy. (cy, 12)) (cy # cys)) c =
        (case run_accesses (map (\<lambda>cy. (cy, 12)) cys) ?c' of
           Inl e \<Rightarrow> Inl e
         | Inr (vs, c'') \<Rightarrow> Inr (drop_bit (7 - k) (read_shift_register sd) # vs, c''))"
      by (simp only: list.map run_accesses.simps step sum.case prod.case)
    also have "\<dots> = Inr (drop_bit (7 - k) (read_shift_register sd)
          # map (\<lambda>j. drop_bit (7 - j) (read_shift_register sd)) [k + 1..<k + 1 + length cys],
        put_drive c ?d (sd\<lparr>bit_position := (if k + length (cy # cys) = 8 then 0
                else of_nat (k + length (cy # cys)))\<rparr>))"
      by (simp only: ih rsr fin sum.case prod.case)
    also have "\<dots> = Inr (map (\<lambda>j. drop_bit (7 - j) (read_shift_register sd))
          [k..<k + length (cy # cys)],
        put_drive c ?d (sd\<lparr>bit_position := (if k + length (cy # cys) = 8 then 0
                else of_nat (k + length (cy # cys)))\<rparr>))"
      by (simp only: upt list.map)
    finally show ?thesis .
  qed
qed

text \<open>Eight reads of the data register from the start of a byte.\<close>

lemma byte_read:
  assumes "get_drive c (drive_select c) = Inr sd"
    and "motor sd = 1" and "Q6 sd = 0" and "Q7 sd = 0" and "bit_position sd = 0"
    and "track_byte sd = Inr b" and "unat (head_position sd) < track_length"
    and "length cys = 8"
    and "\<forall>cy \<in> set cys. mark_cycles_turnoff sd = 0 \<or> cy \<le> mark_cycles_turnoff sd"
  shows "run_accesses (map (\<lambda>cy. (cy, reg_offset DiskII_Q6L)) cys) c =
     Inr (map (\<lambda>k. drop_bit k b) [7, 6, 5, 4, 3, 2, 1, 0],
       put_drive c (drive_select c)
         (sd\<lparr>read_shift_register := b, head_position := head_position sd + 1,
            bit_position := 0\<rparr>))"
proof -
  let ?d = "drive_select c"
  let ?sd1 = "sd\<lparr>read_shift_register := b, head_position := head_position sd + 1,
     bit_position := 1\<rparr>"
  let ?c1 = "put_drive c ?d ?sd1"
  from assms(8) obtain cy rest where cys: "cys = cy # rest" and rest: "length rest = 7"
    by (cases cys) simp_all
  from assms(1) have d01: "?d = 0 \<or> ?d = 1" by (auto dest: get_drive_InrD)
  from assms(9) cys have early: "mark_cycles_turnoff sd = 0 \<or> cy \<le> mark_cycles_turnoff sd"
    by auto
  have hp: "head_position sd < 0x1A00"
    using assms(7) by (simp add: word_less_nat_alt track_length_def)
  have m: "motor sd \<noteq> 0" using assms(2) by simp
  have first: "diskII_access cy 12 c = Inr (drop_bit 7 b, ?c1)"
    unfolding data_register_read [OF assms(1,2) early assms(3,4)]
      read_nybble_first_bit [OF m assms(5,6) hp]
    by simp
  have sel1: "get_drive ?c1 (drive_select ?c1) = Inr ?sd1"
    by (simp add: get_put_drive(1) [OF d01] get_put_drive(2))
  have p: "motor ?sd1 = 1" "Q6 ?sd1 = 0" "Q7 ?sd1 = 0" "unat (bit_position ?sd1) = 1"
    "0 < (1 :: nat)" "(1 :: nat) < 8" "1 + length rest \<le> 8"
    "\<forall>cy \<in> set rest. mark_cycles_turnoff ?sd1 = 0 \<or> cy \<le> mark_cycles_turnoff ?sd1"
    using assms(2,3,4,9) cys rest by auto
  from rest_of_byte [OF sel1 p] rest
  have others: "run_accesses (map (\<lambda>cy. (cy, 12)) rest) ?c1 =
      Inr (map (\<lambda>j. drop_bit (7 - j) b) [1..<8],
        put_drive c ?d (sd\<lparr>read_shift_register := b, head_position := head_position sd + 1,
            bit_position := 0\<rparr>))"
    by (simp add: get_put_drive(2) put_drive_idem(2))
  have bits: "drop_bit 7 b # map (\<lambda>j. drop_bit (7 - j) b) [1..<8]
      = map (\<lambda>k. drop_bit k b) [7, 6, 5, 4, 3, 2, 1, 0]"
    by (simp add: upt_rec)
  show ?thesis
    by (simp only: cys list.map run_accesses.simps reg_offset.simps first others
        sum.case prod.case bits)
qed

lemma track_byte_in_range:
  assumes "0 \<le> sint (track sd)"
    and "nat (sint (track sd) div 2) < length (nibblized sd)"
    and "unat (head_position sd) < length (nibblized sd ! nat (sint (track sd) div 2))"
  shows "track_byte sd
     = Inr (nibblized sd ! nat (sint (track sd) div 2) ! unat (head_position sd))"
  using assms by (simp add: track_byte_def half_track_def Let_def)

text \<open>
  What holds of eight reads while the head is inside the track buffer. With the motor on,
  in Read mode, at the start of a byte, on a track the disk has and with the head below
  the track length, eight reads of the data register Q6L, none of them past a pending
  motor deadline, return the byte of the track's buffer at the head position shifted
  right by 7, 6, 5, 4, 3, 2, 1 and 0 bits, and leave the drive with that byte latched, the
  head position plus 1 and the bit counter back at 0.
\<close>

lemma eight_reads_in_range:
  assumes "get_drive c (drive_select c) = Inr sd"
    and "motor sd = 1" and "Q6 sd = 0" and "Q7 sd = 0" and "bit_position sd = 0"
    and "0 \<le> sint (track sd)"
    and "nat (sint (track sd) div 2) < length (nibblized sd)"
    and "unat (head_position sd) < length (nibblized sd ! nat (sint (track sd) div 2))"
    and "unat (head_position sd) < track_length"
    and "length cys = 8"
    and "\<forall>cy \<in> set cys. mark_cycles_turnoff sd = 0 \<or> cy \<le> mark_cycles_turnoff sd"
  shows "run_accesses (map (\<lambda>cy. (cy, reg_offset DiskII_Q6L)) cys) c =
     Inr (map (\<lambda>k. drop_bit k
            (nibblized sd ! nat (sint (track sd) div 2) ! unat (head_position sd)))
          [7, 6, 5, 4, 3, 2, 1, 0],
       put_drive c (drive_select c)
         (sd\<lparr>read_shift_register
               := nibblized sd ! nat (sint (track sd) div 2) ! unat (head_position sd),
            head_position := head_position sd + 1, bit_position := 0\<rparr>))"
  using assms(1-5) track_byte_in_range [OF assms(6-8)] assms(9-11) by (rule byte_read)

section \<open>The head position against the track length\<close>

lemma run_accesses_append:
  "run_accesses (xs @ ys) c =
     (case run_accesses xs c of
        Inl e \<Rightarrow> Inl e
      | Inr (vs, c') \<Rightarrow>
          (case run_accesses ys c' of
             Inl e \<Rightarrow> Inl e
           | Inr (ws, c'') \<Rightarrow> Inr (vs @ ws, c'')))"
  by (induction xs arbitrary: c) (auto split: sum.splits)

lemma sync_at_fields:
  "get_drive (sync_at r n) (drive_select (sync_at r n)) = Inr (drive0 (sync_at r n))"
  "drive_select (sync_at r n) = 0"
  "motor (drive0 (sync_at r n)) = 1" "Q6 (drive0 (sync_at r n)) = 0"
  "Q7 (drive0 (sync_at r n)) = 0" "bit_position (drive0 (sync_at r n)) = 0"
  "head_position (drive0 (sync_at r n)) = of_nat n"
  "mark_cycles_turnoff (drive0 (sync_at r n)) = 0" "track (drive0 (sync_at r n)) = 0"
  "nibblized (drive0 (sync_at r n)) = sync_disk"
  "read_shift_register (drive0 (sync_at r n)) = r"
  by (simp_all add: sync_at_def mounted_controller_def get_drive_def)

lemma unat_head: "n \<le> 0xFFFF \<Longrightarrow> unat (of_nat n :: u16) = n"
  by (simp add: unat_of_nat)

lemma sync_at_track_byte:
  "n < 0x1A00 \<Longrightarrow> track_byte (drive0 (sync_at r n)) = Inr 0xFF"
  "0x1A00 \<le> n \<Longrightarrow> n \<le> 0xFFFF \<Longrightarrow> track_byte (drive0 (sync_at r n)) = Inl HeadIndexOutOfRange"
  by (simp_all add: track_byte_def half_track_def sync_at_fields sync_disk_def unat_head)

lemma sync_byte_read:
  assumes "n < 0x1A00"
  shows "run_accesses (replicate 8 (cy, 12)) (sync_at r n)
     = Inr ([1, 3, 7, 15, 31, 63, 127, 255], sync_at 0xFF (Suc n))"
proof -
  note f = sync_at_fields [of r n]
  have hp: "unat (head_position (drive0 (sync_at r n))) < track_length"
    using assms by (simp add: f unat_head track_length_def)
  have len: "length (replicate 8 cy) = 8" by simp
  have early: "\<forall>cy \<in> set (replicate 8 cy). mark_cycles_turnoff (drive0 (sync_at r n)) = 0
      \<or> cy \<le> mark_cycles_turnoff (drive0 (sync_at r n))"
    by (simp add: f)
  have bits: "map (\<lambda>k. drop_bit k (0xFF :: u8)) [7, 6, 5, 4, 3, 2, 1, 0]
      = [1, 3, 7, 15, 31, 63, 127, 255]"
    by (simp add: drop_bit_eq_div)
  have fin: "put_drive (sync_at r n) (drive_select (sync_at r n))
         ((drive0 (sync_at r n))\<lparr>read_shift_register := 0xFF,
            head_position := head_position (drive0 (sync_at r n)) + 1, bit_position := 0\<rparr>)
      = sync_at 0xFF (Suc n)"
    by (simp add: put_drive_def sync_at_def mounted_controller_def)
  from byte_read [OF f(1,3,4,5,6) sync_at_track_byte(1) [OF assms] hp len early]
  show ?thesis
    by (simp only: bits fin reg_offset.simps map_replicate)
qed

lemma sync_bytes_read:
  assumes "n \<le> 0x1A00"
  shows "\<exists>vs. run_accesses (replicate (8 * n) (cy, 12)) (sync_at r 0)
     = Inr (vs, sync_at (if n = 0 then r else 0xFF) n)"
  using assms
proof (induction n)
  case 0
  then show ?case by simp
next
  case (Suc n)
  then obtain vs where vs: "run_accesses (replicate (8 * n) (cy, 12)) (sync_at r 0)
     = Inr (vs, sync_at (if n = 0 then r else 0xFF) n)"
    by auto
  from Suc.prems have n: "n < 0x1A00" by simp
  have split: "replicate (8 * Suc n) (cy, 12 :: nat)
      = replicate (8 * n) (cy, 12) @ replicate 8 (cy, 12)"
    by (simp add: replicate_add [symmetric])
  show ?case
    by (simp only: split run_accesses_append vs sync_byte_read [OF n] sum.case prod.case)
      simp
qed

text \<open>
  C4 on the code. The sync disk (35 tracks of 0x1A00 bytes) is mounted in drive 0 of the
  fresh controller and the motor is turned on. The byte read at head position 0x19FF
  leaves the head at 0x1A00, not at 0: the wrap test sees the position before the
  increment. This state is reached by 8 * 0x1A00 reads of the data register, the head is
  then at the length of the track buffer, and the next read indexes the buffer there.
\<close>

theorem head_overrun_evaluated:
  "diskII_access 0 9 mounted_controller = Inr (0xEE, sync_at 0 0)
   \<and> run_accesses (replicate 8 (0, 12)) (sync_at 0xFF 0x19FF)
       = Inr ([1, 3, 7, 15, 31, 63, 127, 255], sync_at 0xFF 0x1A00)
   \<and> \<not> isl (run_accesses (replicate (8 * 0x1A00) (0, 12)) (sync_at 0 0))
   \<and> snd (projr (run_accesses (replicate (8 * 0x1A00) (0, 12)) (sync_at 0 0)))
       = sync_at 0xFF 0x1A00
   \<and> unat (head_position (drive0 (sync_at 0xFF 0x1A00))) = track_length
   \<and> length (nibblized (drive0 (sync_at 0xFF 0x1A00)) ! 0) = track_length
   \<and> diskII_access 0 12 (sync_at 0xFF 0x1A00) = Inl HeadIndexOutOfRange"
proof -
  have on: "diskII_access 0 9 mounted_controller = Inr (0xEE, sync_at 0 0)"
    by (simp add: diskII_access_def Let_def put_drive_def get_drive_def clamp_track_def
        mounted_controller_def sync_at_def)
  have last_byte: "run_accesses (replicate 8 (0, 12)) (sync_at 0xFF 0x19FF)
       = Inr ([1, 3, 7, 15, 31, 63, 127, 255], sync_at 0xFF 0x1A00)"
    using sync_byte_read [of "0x19FF" 0 "0xFF"] by simp
  obtain vs where run: "run_accesses (replicate (8 * 0x1A00) (0, 12)) (sync_at 0 0)
      = Inr (vs, sync_at 0xFF 0x1A00)"
    using sync_bytes_read [of "0x1A00" 0 0] by auto
  note f = sync_at_fields [of "0xFF" "0x1A00"]
  have hp: "unat (head_position (drive0 (sync_at 0xFF 0x1A00))) = track_length"
    by (simp add: f track_length_def)
  have len: "length (nibblized (drive0 (sync_at 0xFF 0x1A00)) ! 0) = track_length"
    by (simp add: f sync_disk_def track_length_def)
  have tb: "track_byte (drive0 (sync_at 0xFF 0x1A00)) = Inl HeadIndexOutOfRange"
    by (rule sync_at_track_byte(2)) simp_all
  have early: "mark_cycles_turnoff (drive0 (sync_at 0xFF 0x1A00)) = 0
      \<or> (0 :: u64) \<le> mark_cycles_turnoff (drive0 (sync_at 0xFF 0x1A00))"
    by (simp add: f)
  have "diskII_access 0 12 (sync_at 0xFF 0x1A00) = Inl HeadIndexOutOfRange"
    unfolding data_register_read [OF f(1,3) early f(4,5)]
    by (simp add: read_nybble_def load_shift_register_def f tb)
  with on last_byte run hp len show ?thesis by simp
qed

section \<open>The scheduler's bursts\<close>

lemma elapsed_advance:
  fixes c c0 :: u64
  assumes "unat (c - c0) + k < 2 ^ 64"
  shows "unat (c + of_nat k - c0) = unat (c - c0) + k"
proof -
  from assms have k: "k < 2 ^ 64" by simp
  then have uk: "unat (of_nat k :: u64) = k" by (simp add: unat_of_nat)
  have eq: "c + of_nat k - c0 = (c - c0) + of_nat k" by simp
  have "unat ((c - c0) + (of_nat k :: u64)) = unat (c - c0) + unat (of_nat k :: u64)"
    using assms uk by (simp add: unat_add_lem [THEN iffD1])
  then show ?thesis by (simp only: eq uk)
qed

lemma burst_continues:
  assumes "cycles cpu - c0 < 17008" and "fst (execute_next env (before_step env cpu)) \<le> 0"
  shows "burst env c0 cpu = burst env c0 (snd (execute_next env (before_step env cpu)))"
  using assms
  by (subst burst.simps) (cases "execute_next env (before_step env cpu)", simp)

lemma burst_exits:
  assumes "17008 \<le> cycles cpu - c0"
  shows "burst env c0 cpu = Some cpu"
proof -
  from assms have "\<not> cycles cpu - c0 < 17008" by (rule leD)
  then show ?thesis by (subst burst.simps) simp
qed

text \<open>
  A burst ends, between 17008 cycles and 17008 cycles plus one step after its start, and
  it keeps any property of the state that the trap and the core keep.
\<close>

lemma burst_ends:
  assumes adv: "core_advances env m"
    and trap: "keeps_clock (prodos_block_pv_trap env)"
    and m: "17008 + m \<le> 2 ^ 64"
    and inv: "\<And>s. P s \<Longrightarrow> P (prodos_block_pv_trap env s) \<and> P (snd (execute_next env s))"
    and start: "unat (cycles cpu - c0) < 17008 + m" and P: "P cpu"
  shows "\<exists>cpu'. burst env c0 cpu = Some cpu' \<and> P cpu'
      \<and> 17008 \<le> unat (cycles cpu' - c0) \<and> unat (cycles cpu' - c0) < 17008 + m"
  using start P
proof (induction "17008 - unat (cycles cpu - c0)" arbitrary: cpu rule: less_induct)
  case less
  show ?case
  proof (cases "cycles cpu - c0 < 17008")
    case False
    then have "17008 \<le> cycles cpu - c0" by (simp add: not_less)
    moreover from this have "17008 \<le> unat (cycles cpu - c0)"
      by (simp add: word_le_nat_alt)
    ultimately show ?thesis using burst_exits [of cpu c0 env] less.prems by simp
  next
    case True
    then have e: "unat (cycles cpu - c0) < 17008" by (simp add: word_less_nat_alt)
    let ?s = "before_step env cpu"
    let ?cpu' = "snd (execute_next env ?s)"
    have cs: "cycles ?s = cycles cpu"
      using trap by (simp add: before_step_def keeps_clock_def)
    from adv obtain k where rc: "fst (execute_next env ?s) \<le> 0"
      and k: "0 < k" "k \<le> m" and c': "cycles ?cpu' = cycles ?s + of_nat k"
      unfolding core_advances_def by blast
    have el: "unat (cycles ?cpu' - c0) = unat (cycles cpu - c0) + k"
      unfolding c' cs using e k m by (intro elapsed_advance) simp
    have Ps: "P ?s" using less.prems(2) inv by (simp add: before_step_def)
    then have P': "P ?cpu'" using inv by simp
    have "\<exists>cpu''. burst env c0 ?cpu' = Some cpu'' \<and> P cpu''
        \<and> 17008 \<le> unat (cycles cpu'' - c0) \<and> unat (cycles cpu'' - c0) < 17008 + m"
      using el e k P' by (intro less.hyps) simp_all
    then show ?thesis using burst_continues [OF True rc] by simp
  qed
qed

lemma elapsed_sum:
  fixes a b c :: u64
  assumes "unat (a - b) + unat (b - c) < 2 ^ 64"
  shows "unat (a - c) = unat (a - b) + unat (b - c)"
proof -
  have eq: "a - c = (a - b) + (b - c)" by simp
  from assms have "unat (a - b) + unat (b - c) < 2 ^ LENGTH(64)" by simp
  then have "unat ((a - b) + (b - c)) = unat (a - b) + unat (b - c)"
    by (rule unat_add_lem [THEN iffD1])
  then show ?thesis by (simp only: eq)
qed

text \<open>
  \<open>n\<close> iterations of the scheduler loop: they complete, and if the loop is still running
  the cycles elapsed are \<open>n\<close> times 17008 plus at most \<open>m - 1\<close> for each burst. With a
  property \<open>P\<close> that every collaborator keeps and that excludes the halt flag, the loop is
  still running.
\<close>

lemma run_cpus_cycles:
  assumes adv: "core_advances env m"
    and trap: "keeps_clock (prodos_block_pv_trap env)"
    and hooks: "keeps_clock (periodic_hooks env)"
    and pace: "keeps_clock (pacing env)"
    and inv: "\<And>s. P s \<Longrightarrow> P (prodos_block_pv_trap env s) \<and> P (snd (execute_next env s))
        \<and> P (periodic_hooks env s) \<and> P (pacing env s)"
    and bound: "n * (17008 + m) < 2 ^ 64" and P: "P cpu"
  shows "\<exists>ls. run_cpus env n cpu = Some ls
      \<and> (\<forall>cpu'. ls = Running cpu' \<longrightarrow>
            n * 17008 \<le> unat (cycles cpu' - cycles cpu)
            \<and> unat (cycles cpu' - cycles cpu) \<le> n * (17008 + m - 1))
      \<and> ((\<forall>s. P s \<longrightarrow> \<not> halt s) \<longrightarrow> (\<exists>cpu'. ls = Running cpu'))"
  using bound P
proof (induction n arbitrary: cpu)
  case 0
  then show ?case by simp
next
  case (Suc n)
  from Suc.prems(1) have m: "17008 + m \<le> 2 ^ 64" and n: "n * (17008 + m) < 2 ^ 64"
    by simp_all
  have inv': "\<And>s. P s \<Longrightarrow> P (prodos_block_pv_trap env s) \<and> P (snd (execute_next env s))"
    using inv by simp
  have "unat (cycles cpu - cycles cpu) < 17008 + m" by simp
  from burst_ends [of env m P, OF adv trap m inv' this Suc.prems(2)]
  obtain cpu1 where b: "burst env (cycles cpu) cpu = Some cpu1" and P1: "P cpu1"
    and lo: "17008 \<le> unat (cycles cpu1 - cycles cpu)"
    and hi: "unat (cycles cpu1 - cycles cpu) < 17008 + m"
    by blast
  let ?cpu2 = "periodic_hooks env cpu1"
  let ?cpu3 = "pacing env ?cpu2"
  have c3: "cycles ?cpu3 = cycles cpu1"
    using hooks pace by (simp add: keeps_clock_def)
  have P3: "P ?cpu2" "P ?cpu3" using P1 inv by simp_all
  show ?case
  proof (cases "halt ?cpu2")
    case True
    with b P3 show ?thesis by (auto simp add: Let_def)
  next
    case False
    from Suc.IH [OF n P3(2)] obtain ls where
      r: "run_cpus env n ?cpu3 = Some ls"
      and bounds: "\<forall>cpu'. ls = Running cpu' \<longrightarrow>
            n * 17008 \<le> unat (cycles cpu' - cycles cpu1)
            \<and> unat (cycles cpu' - cycles cpu1) \<le> n * (17008 + m - 1)"
      and running: "(\<forall>s. P s \<longrightarrow> \<not> halt s) \<longrightarrow> (\<exists>cpu'. ls = Running cpu')"
      unfolding c3 by blast
    have run: "run_cpus env (Suc n) cpu = Some ls"
      using b False r by (simp add: Let_def)
    have "Suc n * 17008 \<le> unat (cycles cpu' - cycles cpu)
        \<and> unat (cycles cpu' - cycles cpu) \<le> Suc n * (17008 + m - 1)"
      if "ls = Running cpu'" for cpu'
    proof -
      from bounds that have l: "n * 17008 \<le> unat (cycles cpu' - cycles cpu1)"
        and h: "unat (cycles cpu' - cycles cpu1) \<le> n * (17008 + m - 1)"
        by simp_all
      have "n * (17008 + m - 1) + (17008 + m) \<le> Suc n * (17008 + m)"
        by (simp add: algebra_simps)
      with h hi Suc.prems(1)
      have "unat (cycles cpu' - cycles cpu1) + unat (cycles cpu1 - cycles cpu) < 2 ^ 64"
        by linarith
      from elapsed_sum [OF this] l h lo hi show ?thesis by (simp add: algebra_simps)
    qed
    with run running show ?thesis by blast
  qed
qed

text \<open>
  C8. Assume that every step of the core advances the cycle counter, by at most \<open>m\<close>
  cycles, and does not signal a stop, and that the trap, the periodic hooks and the pacing
  leave the cycle counter alone. Then the burst loop goes on with the state after the
  next step while fewer than 17008 cycles have elapsed since the burst's start, and
  returns at once when 17008 have; a burst started at the current cycle count ends with at
  least 17008 and fewer than 17008 + \<open>m\<close> cycles elapsed; and \<open>n\<close> iterations of the
  scheduler loop complete, with at least \<open>n\<close> * 17008 and at most \<open>n\<close> * (17008 + \<open>m\<close> - 1)
  cycles elapsed when the loop has not halted (\<open>n\<close> = 300 in the claim).
\<close>

theorem burst_runs_for_17008_cycles:
  assumes "core_advances env m"
    and "keeps_clock (prodos_block_pv_trap env)"
    and "keeps_clock (periodic_hooks env)"
    and "keeps_clock (pacing env)"
    and "0 < n" and "n * (17008 + m) < 2 ^ 64"
  shows "(cycles cpu - c0 < 17008 \<longrightarrow>
            burst env c0 cpu = burst env c0 (snd (execute_next env (before_step env cpu))))
     \<and> (17008 \<le> cycles cpu - c0 \<longrightarrow> burst env c0 cpu = Some cpu)
     \<and> (\<exists>cpu1. burst env (cycles cpu) cpu = Some cpu1
           \<and> 17008 \<le> unat (cycles cpu1 - cycles cpu)
           \<and> unat (cycles cpu1 - cycles cpu) < 17008 + m)
     \<and> (\<exists>ls. run_cpus env n cpu = Some ls
           \<and> (\<forall>cpu'. ls = Running cpu' \<longrightarrow>
                 n * 17008 \<le> unat (cycles cpu' - cycles cpu)
                 \<and> unat (cycles cpu' - cycles cpu) \<le> n * (17008 + m - 1)))"
proof -
  from assms(1) have rc: "fst (execute_next env (before_step env cpu)) \<le> 0"
    by (simp add: core_advances_def)
  from assms(5) have "17008 + m \<le> n * (17008 + m)"
    by (cases n) simp_all
  with assms(6) have m: "17008 + m \<le> 2 ^ 64" by linarith
  have 1: "cycles cpu - c0 < 17008 \<longrightarrow>
      burst env c0 cpu = burst env c0 (snd (execute_next env (before_step env cpu)))"
    using burst_continues [OF _ rc] by blast
  have 2: "17008 \<le> cycles cpu - c0 \<longrightarrow> burst env c0 cpu = Some cpu"
    using burst_exits by blast
  have "unat (cycles cpu - cycles cpu) < 17008 + m" by simp
  from burst_ends [of env m "\<lambda>s. True", OF assms(1,2) m _ this]
  have 3: "\<exists>cpu1. burst env (cycles cpu) cpu = Some cpu1
           \<and> 17008 \<le> unat (cycles cpu1 - cycles cpu)
           \<and> unat (cycles cpu1 - cycles cpu) < 17008 + m"
    by simp
  from run_cpus_cycles [of env m "\<lambda>s. True", OF assms(1,2,3,4) _ assms(6)]
  have 4: "\<exists>ls. run_cpus env n cpu = Some ls
           \<and> (\<forall>cpu'. ls = Running cpu' \<longrightarrow>
                 n * 17008 \<le> unat (cycles cpu' - cycles cpu)
                 \<and> unat (cycles cpu' - cycles cpu) \<le> n * (17008 + m - 1))"
    by blast
  from 1 2 3 4 show ?thesis by blast
qed

lemma seven_cycle_core_facts:
  "core_advances seven_cycle_core 7"
  "keeps_clock (prodos_block_pv_trap seven_cycle_core)"
  "keeps_clock (periodic_hooks seven_cycle_core)"
  "keeps_clock (pacing seven_cycle_core)"
proof -
  have "\<exists>k. 0 < k \<and> k \<le> 7 \<and> (7 :: u64) = of_nat k"
    by (rule exI [of _ 7]) simp
  then show "core_advances seven_cycle_core 7"
    by (simp add: core_advances_def seven_cycle_core_def)
qed (simp_all add: keeps_clock_def seven_cycle_core_def)

lemma seven_cycle_core_running:
  "\<exists>cpu'. run_cpus seven_cycle_core 300 reset_cpu = Some (Running cpu')"
proof -
  have inv: "\<And>s. \<not> halt s \<Longrightarrow>
      \<not> halt (prodos_block_pv_trap seven_cycle_core s)
      \<and> \<not> halt (snd (execute_next seven_cycle_core s))
      \<and> \<not> halt (periodic_hooks seven_cycle_core s) \<and> \<not> halt (pacing seven_cycle_core s)"
    by (simp add: seven_cycle_core_def)
  have b: "300 * (17008 + 7) < (2 :: nat) ^ 64" by simp
  have P: "\<not> halt reset_cpu" by (simp add: reset_cpu_def)
  from run_cpus_cycles [of seven_cycle_core 7 "\<lambda>s. \<not> halt s" 300 reset_cpu,
      OF seven_cycle_core_facts inv b P]
  show ?thesis by blast
qed

theorem burst_runs_for_17008_cycles_witness:
  "core_advances seven_cycle_core 7
   \<and> keeps_clock (prodos_block_pv_trap seven_cycle_core)
   \<and> keeps_clock (periodic_hooks seven_cycle_core)
   \<and> keeps_clock (pacing seven_cycle_core)
   \<and> cycles reset_cpu - 0 < 17008
   \<and> burst seven_cycle_core 0 reset_cpu
       = burst seven_cycle_core 0 (reset_cpu\<lparr>cycles := 7\<rparr>)
   \<and> 17008 \<le> cycles (reset_cpu\<lparr>cycles := 17010\<rparr>) - 0
   \<and> burst seven_cycle_core 0 (reset_cpu\<lparr>cycles := 17010\<rparr>)
       = Some (reset_cpu\<lparr>cycles := 17010\<rparr>)
   \<and> (\<exists>cpu'. run_cpus seven_cycle_core 300 reset_cpu = Some (Running cpu')
         \<and> 300 * 17008 \<le> unat (cycles cpu' - cycles reset_cpu)
         \<and> unat (cycles cpu' - cycles reset_cpu) \<le> 300 * (17008 + 7 - 1))"
proof -
  note f = seven_cycle_core_facts
  have n: "0 < (300 :: nat)" and b: "300 * (17008 + 7) < (2 :: nat) ^ 64" by simp_all
  have lt: "cycles reset_cpu - 0 < 17008" by (simp add: reset_cpu_def)
  have ge: "17008 \<le> cycles (reset_cpu\<lparr>cycles := 17010\<rparr>) - 0" by simp
  have next_state: "snd (execute_next seven_cycle_core (before_step seven_cycle_core reset_cpu))
      = reset_cpu\<lparr>cycles := 7\<rparr>"
    by (simp add: seven_cycle_core_def before_step_def reset_cpu_def)
  from burst_runs_for_17008_cycles [OF f n b, of reset_cpu 0] lt
  have 1: "burst seven_cycle_core 0 reset_cpu
       = burst seven_cycle_core 0 (reset_cpu\<lparr>cycles := 7\<rparr>)"
    by (simp only: next_state)
  from burst_runs_for_17008_cycles [OF f n b, of "reset_cpu\<lparr>cycles := 17010\<rparr>" 0] ge
  have 2: "burst seven_cycle_core 0 (reset_cpu\<lparr>cycles := 17010\<rparr>)
       = Some (reset_cpu\<lparr>cycles := 17010\<rparr>)"
    by blast
  from burst_runs_for_17008_cycles [OF f n b, of reset_cpu 0] seven_cycle_core_running
  have 3: "\<exists>cpu'. run_cpus seven_cycle_core 300 reset_cpu = Some (Running cpu')
         \<and> 300 * 17008 \<le> unat (cycles cpu' - cycles reset_cpu)
         \<and> unat (cycles cpu' - cycles reset_cpu) \<le> 300 * (17008 + 7 - 1)"
    by auto
  from f lt ge 1 2 3 show ?thesis by blast
qed

section \<open>What the handler does at the even offsets and at Q7L\<close>

text \<open>
  Every even offset but Q7L with Q6 low: when the access ends in Read mode, the byte
  returned and the new state of the drive are those of the bit-serial read, made after
  the side effect of the access.
\<close>

lemma even_offset_reads_nybble:
  assumes sel: "get_drive c (drive_select c) = Inr sd"
    and mode: "ends_in_read_mode r sd" and nosense: "\<not> senses_write_protect r sd"
  shows "\<exists>sd2 ds. Q6 sd2 = 0 \<and> Q7 sd2 = 0
      \<and> reg_switch cy (last_phase_on sd) r (motor_deadline_check cy sd) (drive_select c)
          = (sd2, ds, None)
      \<and> diskII_access cy (reg_offset r) c =
          (case read_nybble sd2 of
             Inl e \<Rightarrow> Inl e
           | Inr (v, sd3) \<Rightarrow>
               Inr (v, put_drive (c\<lparr>drive_select := ds\<rparr>) (drive_select c) sd3))"
proof -
  obtain sd2 ds early where
    sw: "reg_switch cy (last_phase_on sd) r (motor_deadline_check cy sd) (drive_select c)
      = (sd2, ds, early)"
    by (metis prod_cases3)
  from reg_switch_mode(1-3) [OF sw] mode nosense
  have m: "Q6 sd2 = 0" "Q7 sd2 = 0" "early = None" "even (reg_offset r)"
    by (simp_all add: ends_in_read_mode_def)
  from diskII_access_reg [OF sel sw] m sw show ?thesis by simp
qed

text \<open>
  Q7L with Q6 low: the handler returns the write-protect flag shifted into bit 7, and does
  not read the disk.
\<close>

lemma Q7L_with_Q6_low:
  assumes sel: "get_drive c (drive_select c) = Inr sd" and q6: "Q6 sd = 0"
  shows "diskII_access cy (reg_offset DiskII_Q7L) c =
     Inr (push_bit 7 (write_protect sd),
       put_drive c (drive_select c) ((motor_deadline_check cy sd)\<lparr>Q7 := 0\<rparr>))"
proof -
  have sw: "reg_switch cy (last_phase_on sd) DiskII_Q7L (motor_deadline_check cy sd)
      (drive_select c) = ((motor_deadline_check cy sd)\<lparr>Q7 := 0\<rparr>, drive_select c,
        Some (push_bit 7 (write_protect sd)))"
    using q6 by (simp add: Let_def)
  have same: "c\<lparr>drive_select := drive_select c\<rparr> = c" by simp
  from diskII_access_reg [OF sel sw, unfolded same] show ?thesis by simp
qed

section \<open>The address decoding of the handler\<close>

lemma decode_offset:
  assumes "slot < 8" and "reg < 16"
  shows "unat ((of_nat (16 * slot + reg) :: u16) AND 0x0F) = reg"
    and "unat (ucast (drop_bit 4 (of_nat (16 * slot + reg) :: u16)) :: u8) = slot"
proof -
  let ?n = "16 * slot + reg"
  from assms have n: "?n < 128" by simp
  then have u: "unat (of_nat ?n :: u16) = ?n" by (simp only: unat_of_nat) simp
  have "unat ((of_nat ?n :: u16) AND 0x0F) = unat (of_nat ?n :: u16) AND unat (0x0F :: u16)"
    by (rule unsigned_and_eq)
  also have "\<dots> = ?n AND mask 4" by (simp only: u) (simp add: mask_eq_exp_minus_1)
  also have "\<dots> = ?n mod 2 ^ 4" by (simp only: take_bit_eq_mask [symmetric] take_bit_eq_mod)
  also have "\<dots> = reg" using assms(2) by simp
  finally show "unat ((of_nat ?n :: u16) AND 0x0F) = reg" .
  have "unat (ucast (drop_bit 4 (of_nat ?n :: u16)) :: u8)
      = take_bit 8 (unat (drop_bit 4 (of_nat ?n :: u16)))"
    by (simp add: unsigned_ucast_eq)
  also have "\<dots> = take_bit 8 (drop_bit 4 ?n)"
    by (simp only: unat_drop_bit_eq u)
  also have "\<dots> = take_bit 8 (?n div 2 ^ 4)"
    by (simp only: drop_bit_eq_div)
  also have "\<dots> = take_bit 8 slot" using assms(2) by simp
  also have "\<dots> = slot" using assms(1) by (simp add: take_bit_nat_eq_self)
  finally show "unat (ucast (drop_bit 4 (of_nat ?n :: u16)) :: u8) = slot" .
qed

text \<open>
  The handler at the address of register \<open>reg\<close> of slot \<open>slot\<close> is the access to that
  register on the slot's controller.
\<close>

lemma diskII_read_C0xx_slot:
  assumes "slot < 8" and "reg < 16" and "length diskII_slot = 8"
  shows "diskII_read_C0xx cy (0xC080 + of_nat (16 * slot + reg)) diskII_slot =
     (case diskII_access cy reg (diskII_slot ! slot) of
        Inl e \<Rightarrow> Inl e
      | Inr (v, c') \<Rightarrow> Inr (v, diskII_slot[slot := c']))"
proof -
  have a: "(0xC080 + of_nat (16 * slot + reg) :: u16) - 0xC080 = of_nat (16 * slot + reg)"
    by (simp del: of_nat_add of_nat_mult)
  show ?thesis
    unfolding diskII_read_C0xx_def Let_def a decode_offset [OF assms(1,2)]
    using assms(1,3) by simp
qed

section \<open>Eight reads at the end of the track\<close>

lemma spinning_fields:
  "get_drive spinning (drive_select spinning) = Inr spinning_drive"
  "drive_select spinning = 0"
  "motor spinning_drive = 1" "Q6 spinning_drive = 0" "Q7 spinning_drive = 0"
  "bit_position spinning_drive = 0" "head_position spinning_drive = 0"
  "mark_cycles_turnoff spinning_drive = 0" "track spinning_drive = 0"
  "nibblized spinning_drive = marked_disk"
  by (simp_all add: spinning_def spinning_drive_def get_drive_def)

text \<open>The first byte of the marked disk, D5, read from the start of track 0.\<close>

lemma eight_reads_of_D5:
  "run_accesses (map (\<lambda>cy. (cy, reg_offset DiskII_Q6L)) [0, 4, 8, 12, 16, 20, 24, 28])
        spinning
       = Inr ([1, 3, 6, 13, 26, 53, 106, 213],
           spinning\<lparr>drive0 := spinning_drive\<lparr>read_shift_register := 0xD5,
             head_position := 1\<rparr>\<rparr>)"
proof -
  note f = spinning_fields
  have tr: "0 \<le> sint (track spinning_drive)"
    "nat (sint (track spinning_drive) div 2) < length (nibblized spinning_drive)"
    "unat (head_position spinning_drive)
       < length (nibblized spinning_drive ! nat (sint (track spinning_drive) div 2))"
    "unat (head_position spinning_drive) < track_length"
    by (simp_all add: f marked_disk_def track_length_def)
  have b: "nibblized spinning_drive ! nat (sint (track spinning_drive) div 2)
      ! unat (head_position spinning_drive) = 0xD5"
    by (simp add: f marked_disk_def)
  have len: "length [0, 4, 8, 12, 16, 20, 24, 28 :: u64] = 8" by simp
  have early: "\<forall>cy \<in> set [0, 4, 8, 12, 16, 20, 24, 28 :: u64].
      mark_cycles_turnoff spinning_drive = 0 \<or> cy \<le> mark_cycles_turnoff spinning_drive"
    by (simp add: f)
  have bits: "map (\<lambda>k. drop_bit k (0xD5 :: u8)) [7, 6, 5, 4, 3, 2, 1, 0]
      = [1, 3, 6, 13, 26, 53, 106, 213]"
    by (simp add: drop_bit_eq_div)
  have fin: "put_drive spinning (drive_select spinning)
         (spinning_drive\<lparr>read_shift_register := 0xD5,
            head_position := head_position spinning_drive + 1, bit_position := 0\<rparr>)
      = spinning\<lparr>drive0 := spinning_drive\<lparr>read_shift_register := 0xD5,
             head_position := 1\<rparr>\<rparr>"
    by (simp add: put_drive_def f spinning_drive_def)
  from eight_reads_in_range [OF f(1,3,4,5,6) tr len early]
  show ?thesis by (simp only: b bits fin)
qed

lemma read_nybble_first_bit_at_end:
  assumes "motor sd \<noteq> 0" and "bit_position sd = 0" and "track_byte sd = Inr b"
    and "0x1A00 \<le> head_position sd"
  shows "read_nybble sd = Inr (drop_bit 7 b,
     sd\<lparr>read_shift_register := b, head_position := 0, bit_position := 1\<rparr>)"
proof -
  let ?sd1 = "sd\<lparr>read_shift_register := b, head_position := 0\<rparr>"
  have l: "load_shift_register sd = Inr ?sd1"
    by (simp add: load_shift_register_def spin_head_def Let_def assms(3,4))
  have "unat (bit_position ?sd1) < 8" by (simp add: assms(2))
  from shift_out_spinning [OF this]
  have "shift_out ?sd1 = Inr (drop_bit 7 b, ?sd1\<lparr>bit_position := 1\<rparr>)"
    by (simp add: assms(2))
  with l assms(1,2) show ?thesis by (simp add: read_nybble_def)
qed

text \<open>
  Eight reads of the data register from the start of a byte when the head is at the track
  length or beyond, and the buffer has a byte there: the head is set to 0.
\<close>

lemma byte_read_at_end:
  assumes "get_drive c (drive_select c) = Inr sd"
    and "motor sd = 1" and "Q6 sd = 0" and "Q7 sd = 0" and "bit_position sd = 0"
    and "track_byte sd = Inr b" and "0x1A00 \<le> head_position sd"
    and "length cys = 8"
    and "\<forall>cy \<in> set cys. mark_cycles_turnoff sd = 0 \<or> cy \<le> mark_cycles_turnoff sd"
  shows "run_accesses (map (\<lambda>cy. (cy, reg_offset DiskII_Q6L)) cys) c =
     Inr (map (\<lambda>k. drop_bit k b) [7, 6, 5, 4, 3, 2, 1, 0],
       put_drive c (drive_select c)
         (sd\<lparr>read_shift_register := b, head_position := 0, bit_position := 0\<rparr>))"
proof -
  let ?d = "drive_select c"
  let ?sd1 = "sd\<lparr>read_shift_register := b, head_position := 0, bit_position := 1\<rparr>"
  let ?c1 = "put_drive c ?d ?sd1"
  from assms(8) obtain cy rest where cys: "cys = cy # rest" and rest: "length rest = 7"
    by (cases cys) simp_all
  from assms(1) have d01: "?d = 0 \<or> ?d = 1" by (auto dest: get_drive_InrD)
  from assms(9) cys have early: "mark_cycles_turnoff sd = 0 \<or> cy \<le> mark_cycles_turnoff sd"
    by auto
  have m: "motor sd \<noteq> 0" using assms(2) by simp
  have first: "diskII_access cy 12 c = Inr (drop_bit 7 b, ?c1)"
    unfolding data_register_read [OF assms(1,2) early assms(3,4)]
      read_nybble_first_bit_at_end [OF m assms(5,6,7)]
    by simp
  have sel1: "get_drive ?c1 (drive_select ?c1) = Inr ?sd1"
    by (simp add: get_put_drive(1) [OF d01] get_put_drive(2))
  have p: "motor ?sd1 = 1" "Q6 ?sd1 = 0" "Q7 ?sd1 = 0" "unat (bit_position ?sd1) = 1"
    "0 < (1 :: nat)" "(1 :: nat) < 8" "1 + length rest \<le> 8"
    "\<forall>cy \<in> set rest. mark_cycles_turnoff ?sd1 = 0 \<or> cy \<le> mark_cycles_turnoff ?sd1"
    using assms(2,3,4,9) cys rest by auto
  from rest_of_byte [OF sel1 p] rest
  have others: "run_accesses (map (\<lambda>cy. (cy, 12)) rest) ?c1 =
      Inr (map (\<lambda>j. drop_bit (7 - j) b) [1..<8],
        put_drive c ?d (sd\<lparr>read_shift_register := b, head_position := 0,
            bit_position := 0\<rparr>))"
    by (simp add: get_put_drive(2) put_drive_idem(2))
  have bits: "drop_bit 7 b # map (\<lambda>j. drop_bit (7 - j) b) [1..<8]
      = map (\<lambda>k. drop_bit k b) [7, 6, 5, 4, 3, 2, 1, 0]"
    by (simp add: upt_rec)
  show ?thesis
    by (simp only: cys list.map run_accesses.simps reg_offset.simps first others
        sum.case prod.case bits)
qed

lemma padded_at_fields:
  "get_drive (padded_at r n) (drive_select (padded_at r n)) = Inr (drive0 (padded_at r n))"
  "drive_select (padded_at r n) = 0"
  "motor (drive0 (padded_at r n)) = 1" "Q6 (drive0 (padded_at r n)) = 0"
  "Q7 (drive0 (padded_at r n)) = 0" "bit_position (drive0 (padded_at r n)) = 0"
  "head_position (drive0 (padded_at r n)) = of_nat n"
  "mark_cycles_turnoff (drive0 (padded_at r n)) = 0" "track (drive0 (padded_at r n)) = 3"
  "nibblized (drive0 (padded_at r n)) = padded_disk"
  "read_shift_register (drive0 (padded_at r n)) = r"
  by (simp_all add: padded_at_def get_drive_def)

lemma padded_track_byte: "track_byte (drive0 (padded_at r 0x1A00)) = Inr 0x97"
proof -
  have t: "half_track (3 :: u8) = 1" by (simp add: half_track_def)
  have "padded_disk ! 1 = replicate 0x1A00 0xFF @ [0x97]"
    by (simp add: padded_disk_def)
  moreover have "length padded_disk = 35" by (simp add: padded_disk_def)
  ultimately show ?thesis
    by (simp add: track_byte_def padded_at_fields t Let_def nth_append)
qed


text \<open>
  C2 on the code. The state \<open>sync_at 0xFF 0x1A00\<close> is reached from the mounted sync disk
  by 8 * 0x1A00 reads of the data register: motor on, Read mode, bit counter 0, head at
  0x1A00, the length of the track buffer. There the buffer has no byte under the head: the
  first of eight reads indexes it out of range. Where the buffer does hold a byte at
  0x1A00 (the padded disk, at half-track 3, whose track 1 has 0x97 there), the eight reads
  return that byte shifted right by 7 down to 0 bits and leave the head at 0, not at the
  position before the reads plus 1.
\<close>

theorem eight_reads_at_track_end_evaluated:
  "\<not> isl (run_accesses (replicate (8 * 0x1A00) (0, 12)) (sync_at 0 0))
   \<and> snd (projr (run_accesses (replicate (8 * 0x1A00) (0, 12)) (sync_at 0 0)))
       = sync_at 0xFF 0x1A00
   \<and> motor (drive0 (sync_at 0xFF 0x1A00)) = 1
   \<and> Q6 (drive0 (sync_at 0xFF 0x1A00)) = 0 \<and> Q7 (drive0 (sync_at 0xFF 0x1A00)) = 0
   \<and> bit_position (drive0 (sync_at 0xFF 0x1A00)) = 0
   \<and> head_position (drive0 (sync_at 0xFF 0x1A00)) = 0x1A00
   \<and> length (nibblized (drive0 (sync_at 0xFF 0x1A00)) ! 0) = 0x1A00
   \<and> run_accesses (map (\<lambda>cy. (cy, reg_offset DiskII_Q6L)) [0, 4, 8, 12, 16, 20, 24, 28])
        (sync_at 0xFF 0x1A00) = Inl HeadIndexOutOfRange
   \<and> head_position (drive0 (padded_at 0xFF 0x1A00)) = 0x1A00
   \<and> padded_disk ! 1 ! 0x1A00 = 0x97
   \<and> run_accesses (map (\<lambda>cy. (cy, reg_offset DiskII_Q6L)) [0, 4, 8, 12, 16, 20, 24, 28])
        (padded_at 0xFF 0x1A00)
       = Inr ([1, 2, 4, 9, 18, 37, 75, 151], padded_at 0x97 0)
   \<and> head_position (drive0 (padded_at 0x97 0)) = 0"
proof -
  obtain vs where run: "run_accesses (replicate (8 * 0x1A00) (0, 12)) (sync_at 0 0)
      = Inr (vs, sync_at 0xFF 0x1A00)"
    using sync_bytes_read [of "0x1A00" 0 0] by auto
  note f = sync_at_fields [of "0xFF" "0x1A00"]
  have len: "length (nibblized (drive0 (sync_at 0xFF 0x1A00)) ! 0) = 0x1A00"
    by (simp add: f sync_disk_def)
  have tb: "track_byte (drive0 (sync_at 0xFF 0x1A00)) = Inl HeadIndexOutOfRange"
    by (rule sync_at_track_byte(2)) simp_all
  have early: "mark_cycles_turnoff (drive0 (sync_at 0xFF 0x1A00)) = 0
      \<or> (0 :: u64) \<le> mark_cycles_turnoff (drive0 (sync_at 0xFF 0x1A00))"
    by (simp add: f)
  have first: "diskII_access 0 12 (sync_at 0xFF 0x1A00) = Inl HeadIndexOutOfRange"
    unfolding data_register_read [OF f(1,3) early f(4,5)]
    by (simp add: read_nybble_def load_shift_register_def f tb)
  have fault: "run_accesses (map (\<lambda>cy. (cy, reg_offset DiskII_Q6L))
        [0, 4, 8, 12, 16, 20, 24, 28]) (sync_at 0xFF 0x1A00) = Inl HeadIndexOutOfRange"
    by (simp add: first)
  note g = padded_at_fields [of "0xFF" "0x1A00"]
  have hp: "(0x1A00 :: u16) \<le> head_position (drive0 (padded_at 0xFF 0x1A00))"
    by (simp add: g)
  have l8: "length [0, 4, 8, 12, 16, 20, 24, 28 :: u64] = 8" by simp
  have e8: "\<forall>cy \<in> set [0, 4, 8, 12, 16, 20, 24, 28 :: u64].
      mark_cycles_turnoff (drive0 (padded_at 0xFF 0x1A00)) = 0
      \<or> cy \<le> mark_cycles_turnoff (drive0 (padded_at 0xFF 0x1A00))"
    by (simp add: g)
  have bits: "map (\<lambda>k. drop_bit k (0x97 :: u8)) [7, 6, 5, 4, 3, 2, 1, 0]
      = [1, 2, 4, 9, 18, 37, 75, 151]"
    by (simp add: drop_bit_eq_div)
  have fin: "put_drive (padded_at 0xFF 0x1A00) (drive_select (padded_at 0xFF 0x1A00))
         ((drive0 (padded_at 0xFF 0x1A00))\<lparr>read_shift_register := 0x97,
            head_position := 0, bit_position := 0\<rparr>)
      = padded_at 0x97 0"
    by (simp add: put_drive_def padded_at_def)
  have wrap: "run_accesses (map (\<lambda>cy. (cy, reg_offset DiskII_Q6L))
        [0, 4, 8, 12, 16, 20, 24, 28]) (padded_at 0xFF 0x1A00)
       = Inr ([1, 2, 4, 9, 18, 37, 75, 151], padded_at 0x97 0)"
    using byte_read_at_end [OF g(1,3,4,5,6) padded_track_byte hp l8 e8]
    by (simp only: bits fin)
  have byte: "padded_disk ! 1 ! 0x1A00 = 0x97"
    by (simp add: padded_disk_def nth_append)
  from run len fault wrap byte show ?thesis
    by (simp add: f g padded_at_fields)
qed

end
